theory Spec2Isabelle
  imports Complex_Main "HOL-Library.Signed_Division"
begin

section \<open>JavaScript primitives used by the numeric core\<close>

text \<open>
  Strings are character lists. Every exception the source can raise is a value of
  \<open>error\<close>; a function that may throw returns \<open>error + 'a\<close> with \<open>Inl\<close> for the throw.
\<close>

datatype error =
    NumberFormat          \<comment> \<open>\<open>Error("Number format exception.")\<close> of the constructor\<close>
  | IllegalNumberFormat   \<comment> \<open>\<open>TypeError("Illegal number format.")\<close> of \<open>parseNum\<close>\<close>
  | IndeterminateForm
  | DivisionByZero
  | RoundingNecessary     \<comment> \<open>\<open>Error("Rounding necessary. ...")\<close>\<close>
  | PaddingError          \<comment> \<open>\<open>Error("Padding string must have only one character.")\<close>\<close>
  | NegativeIndex         \<comment> \<open>\<open>Error("Cannot put decimal point at negative index.")\<close>\<close>
  | RangeError            \<comment> \<open>raised by the \<open>BigInt\<close> built-ins\<close>
  | SyntaxError           \<comment> \<open>raised by \<open>BigInt(string)\<close>\<close>

definition bindE :: "error + 'a \<Rightarrow> ('a \<Rightarrow> error + 'b) \<Rightarrow> error + 'b" where
  "bindE m f = (case m of Inl e \<Rightarrow> Inl e | Inr v \<Rightarrow> f v)"

definition is_digit :: "char \<Rightarrow> bool" where
  "is_digit c = (c \<in> set ''0123456789'')"

definition digit_val :: "char \<Rightarrow> nat" where
  "digit_val c = of_char c - 48"

definition digit_char :: "nat \<Rightarrow> char" where
  "digit_char d = ''0123456789'' ! d"

text \<open>\<open>String.prototype.split(c)\<close> for a one-character separator: never an empty array.\<close>

fun split :: "char \<Rightarrow> string \<Rightarrow> string list" where
  "split c [] = [] # []"
| "split c (x # xs) =
     (if x = c then [] # split c xs
      else (case split c xs of [] \<Rightarrow> [x] # [] | p # ps \<Rightarrow> (x # p) # ps))"

text \<open>
  \<open>String.prototype.substring(a, b)\<close>: both indices are clamped to \<open>[0, length]\<close> and
  swapped when the first exceeds the second; with one argument the end is the length.
\<close>

definition substring :: "string \<Rightarrow> int \<Rightarrow> int \<Rightarrow> string" where
  "substring s a b =
     (let n = int (length s);
          a' = max 0 (min a n);
          b' = max 0 (min b n);
          lo = min a' b';
          hi = max a' b'
      in take (nat (hi - lo)) (drop (nat lo) s))"

definition substring_from :: "string \<Rightarrow> int \<Rightarrow> string" where
  "substring_from s a = substring s a (int (length s))"

text \<open>\<open>s || "0"\<close>: the empty string is falsy.\<close>

definition or_zero :: "string \<Rightarrow> string" where
  "or_zero s = (if s = [] then ''0'' else s)"

text \<open>
  \<open>BigInt(string)\<close>, the abstract operation \<open>StringToBigInt\<close>: white space is trimmed
  from both ends; the empty text is \<open>0n\<close>; a prefix \<open>0x\<close>, \<open>0o\<close> or \<open>0b\<close> (in
  either case) is followed by at least one digit of that radix and takes no sign; otherwise
  an optional sign is followed by at least one decimal digit. Anything else is a
  \<open>SyntaxError\<close>. Characters are 8-bit here, so the white space is the characters 9 to
  13, the space and the no-break space.
\<close>

definition is_space :: "char \<Rightarrow> bool" where
  "is_space c = ((of_char c :: nat) \<in> {9, 10, 11, 12, 13, 32, 160})"

definition trim :: "string \<Rightarrow> string" where
  "trim s = rev (dropWhile is_space (rev (dropWhile is_space s)))"

definition radix_digit :: "char \<Rightarrow> nat option" where
  "radix_digit c =
     (let k = (of_char c :: nat) in
      if 48 \<le> k \<and> k \<le> 57 then Some (k - 48)
      else if 97 \<le> k \<and> k \<le> 102 then Some (k - 87)
      else if 65 \<le> k \<and> k \<le> 70 then Some (k - 55)
      else None)"

definition radix_val :: "nat \<Rightarrow> string \<Rightarrow> error + int" where
  "radix_val b s =
     (if s \<noteq> [] \<and> list_all (\<lambda>c. case radix_digit c of None \<Rightarrow> False | Some d \<Rightarrow> d < b) s
      then Inr (int (foldl (\<lambda>a c. b * a + (case radix_digit c of None \<Rightarrow> 0 | Some d \<Rightarrow> d)) 0 s))
      else Inl SyntaxError)"

definition digits_val :: "string \<Rightarrow> nat" where
  "digits_val s = foldl (\<lambda>a c. 10 * a + digit_val c) 0 s"

definition all_digits :: "string \<Rightarrow> bool" where
  "all_digits s = list_all is_digit s"

definition BigInt_of_string :: "string \<Rightarrow> error + int" where
  "BigInt_of_string s =
     (let t = trim s in
      if take 2 t = ''0x'' \<or> take 2 t = ''0X'' then radix_val 16 (drop 2 t)
      else if take 2 t = ''0o'' \<or> take 2 t = ''0O'' then radix_val 8 (drop 2 t)
      else if take 2 t = ''0b'' \<or> take 2 t = ''0B'' then radix_val 2 (drop 2 t)
      else
        (case t of
           [] \<Rightarrow> Inr 0
         | c # cs \<Rightarrow>
             if c = CHR ''-'' then
               (if cs \<noteq> [] \<and> all_digits cs then Inr (- int (digits_val cs))
                else Inl SyntaxError)
             else if c = CHR ''+'' then
               (if cs \<noteq> [] \<and> all_digits cs then Inr (int (digits_val cs))
                else Inl SyntaxError)
             else if all_digits t then Inr (int (digits_val t))
             else Inl SyntaxError))"

text \<open>\<open>BigInt.prototype.toString()\<close>.\<close>

function nat_digits :: "nat \<Rightarrow> string" where
  "nat_digits n = (if n < 10 then [digit_char n] else nat_digits (n div 10) @ [digit_char (n mod 10)])"
  by pat_completeness auto
termination
  by (relation "measure id") auto

declare nat_digits.simps [simp del]

definition BigInt_toString :: "int \<Rightarrow> string" where
  "BigInt_toString n = (if n < 0 then CHR ''-'' # nat_digits (nat (- n)) else nat_digits (nat n))"

text \<open>
  Doubles. \<open>Math.pow(10, e)\<close> and the product \<open>5 * Math.pow(10, e)\<close> are doubles, with
  53 significant bits. \<open>nearest_double n\<close> is the integer value of the double nearest
  to the natural number \<open>n\<close>, ties going to the even significand: it keeps the 53 leading
  bits of \<open>n\<close> and rounds on the bits below. So \<open>Math.pow(10, 22)\<close> is the power itself and
  \<open>Math.pow(10, 23)\<close> is \<open>99999999999999991611392\<close>, the double that the literal \<open>1e23\<close>
  denotes. (\<open>Math.pow\<close> is taken as correctly rounded; the largest double is above
  \<open>10 ^ 308\<close>, so no overflow arises in the range used.)
\<close>

function bit_length :: "nat \<Rightarrow> nat" where
  "bit_length n = (if n = 0 then 0 else Suc (bit_length (n div 2)))"
  by pat_completeness auto
termination
  by (relation "measure id") auto

declare bit_length.simps [simp del]

definition nearest_double :: "nat \<Rightarrow> nat" where
  "nearest_double n =
     (let b = bit_length n in
      if b \<le> 53 then n
      else
        let sh = b - 53;
            q = n div 2 ^ sh;
            r = n mod 2 ^ sh;
            half = 2 ^ (sh - 1)
        in (if half < r \<or> (r = half \<and> odd q) then q + 1 else q) * 2 ^ sh)"

text \<open>
  \<open>BigInt(Math.pow(10, e))\<close>: a negative exponent gives a fraction and an exponent above
  308 gives \<open>Infinity\<close>, and \<open>BigInt\<close> throws a \<open>RangeError\<close> on both; otherwise the
  double is an integer and \<open>BigInt\<close> converts it exactly.
\<close>

definition BigInt_pow10 :: "int \<Rightarrow> error + int" where
  "BigInt_pow10 e =
     (if e < 0 \<or> 308 < e then Inl RangeError else Inr (int (nearest_double (10 ^ nat e))))"

text \<open>
  \<open>BigInt(5 * Math.pow(10, e))\<close> for \<open>0 \<le> e \<le> 307\<close>, where the product is finite: the
  floating-point product of 5 and the double of the power, rounded to a double again.
\<close>

definition BigInt_5_pow10 :: "nat \<Rightarrow> int" where
  "BigInt_5_pow10 e = int (nearest_double (5 * nearest_double (10 ^ e)))"

section \<open>BigNum (\<open>src/core/math/bignum.ts\<close>)\<close>

datatype RoundingMode = UP | DOWN | CEIL | FLOOR | HALF_UP | HALF_DOWN | HALF_EVEN | UNNECESSARY

record MathContext =
  precision :: nat
  rounding :: RoundingMode

record BigNum =
  integer :: string
  decimal :: string

definition DEFAULT_CONTEXT :: MathContext where
  "DEFAULT_CONTEXT = \<lparr>precision = 17, rounding = HALF_EVEN\<rparr>"

text \<open>
  The constructor. The two \<open>for\<close> loops find the first character from the front (from
  the rear) that is not \<open>'0'\<close>; \<open>substring\<close> then drops the run of zeros before (after)
  it, which is \<open>dropWhile\<close> on the string (on its reversal).
\<close>

definition is0 :: "char \<Rightarrow> bool" where
  "is0 c = (c = CHR ''0'')"

definition BigNum_new :: "string \<Rightarrow> error + BigNum" where
  "BigNum_new num =
     (let parts = split CHR ''.'' num in
      if length parts > 2 then Inl NumberFormat
      else
        let integer0 = (case parts of [] \<Rightarrow> None | a # _ \<Rightarrow> Some a);
            decimal0 = (case parts of _ # b # _ \<Rightarrow> Some b | _ \<Rightarrow> None);
            integer1 = (case integer0 of None \<Rightarrow> ''0''
                        | Some s \<Rightarrow> or_zero (dropWhile is0 s));
            decimal1 = (case decimal0 of None \<Rightarrow> ''0''
                        | Some s \<Rightarrow> or_zero (rev (dropWhile is0 (rev s))))
        in Inr \<lparr>integer = integer1, decimal = decimal1\<rparr>)"

definition BigNum_asBigInt :: "BigNum \<Rightarrow> error + int" where
  "BigNum_asBigInt x = BigInt_of_string (integer x @ decimal x)"

definition BigNum_precision :: "BigNum \<Rightarrow> nat" where
  "BigNum_precision x = length (decimal x)"

definition BigNum_sign :: "BigNum \<Rightarrow> int" where
  "BigNum_sign x =
     (if integer x = ''0'' \<and> decimal x = ''0'' then 0
      else if take 1 (integer x) = ''-'' then - 1
      else 1)"

definition BigNum_toString :: "BigNum \<Rightarrow> string" where
  "BigNum_toString x = integer x @ ''.'' @ decimal x"

text \<open>
  The \<open>switch\<close> of \<open>round\<close>, on the truncated quotient \<open>rounded\<close>, the remainder
  \<open>last\<close> (here \<open>rest\<close>) and half of the divider. \<open>abs\<close> of \<open>./functions\<close> on a \<open>number\<close> is
  \<open>Math.abs\<close>.
\<close>

definition round_switch :: "RoundingMode \<Rightarrow> int \<Rightarrow> int \<Rightarrow> int \<Rightarrow> error + int" where
  "round_switch m rounded rest five =
     (case m of
        UP \<Rightarrow> Inr (if rest > 0 then rounded + 1 else if rest < 0 then rounded - 1 else rounded)
      | DOWN \<Rightarrow> Inr rounded
      | CEIL \<Rightarrow> Inr (if rest > 0 then rounded + 1 else rounded)
      | FLOOR \<Rightarrow> Inr (if rest < 0 then rounded - 1 else rounded)
      | HALF_DOWN \<Rightarrow>
          Inr (if rest > five then rounded + 1 else if rest < - five then rounded - 1 else rounded)
      | HALF_UP \<Rightarrow>
          Inr (if rest \<ge> five then rounded + 1 else if rest \<le> - five then rounded - 1 else rounded)
      | HALF_EVEN \<Rightarrow>
          Inr (if rest > five then rounded + 1
               else if rest < - five then rounded - 1
               else if \<bar>rounded smod 10\<bar> mod 2 \<noteq> 0 then
                 (if rest = five then rounded + 1
                  else if rest = - five then rounded - 1
                  else rounded)
               else rounded)
      | UNNECESSARY \<Rightarrow> (if rest > 0 \<or> rest < 0 then Inl RoundingNecessary else Inr rounded))"

text \<open>
  \<open>BigInt\<close> division truncates toward zero and \<open>%\<close> takes the sign of the dividend:
  \<open>sdiv\<close> and \<open>smod\<close>. The divider is positive, so the division itself cannot
  throw here.
\<close>

definition BigNum_round :: "BigNum \<Rightarrow> MathContext \<Rightarrow> error + BigNum" where
  "BigNum_round x context =
     (if BigNum_precision x > precision context then
        let diff = BigNum_precision x - precision context in
        bindE (BigNum_asBigInt x) (\<lambda>num.
        bindE (BigInt_pow10 (int diff)) (\<lambda>divider.
          let rounded = num sdiv divider;
              rest = num smod divider;
              five = BigInt_5_pow10 (diff - 1)
          in bindE (round_switch (rounding context) rounded rest five) (\<lambda>rounded'.
               let r = BigInt_toString rounded';
                   i = int (length r) - int (precision context)
               in BigNum_new (substring r 0 i @ ''.'' @ substring_from r i))))
      else Inr x)"

text \<open>
  \<open>add\<close>, \<open>sub\<close> and \<open>mul\<close>: the padding is computed first, then the unscaled
  integers of \<open>this\<close> and of \<open>that\<close>, as the operands are evaluated left to right.
\<close>

definition BigNum_add :: "BigNum \<Rightarrow> BigNum \<Rightarrow> error + BigNum" where
  "BigNum_add this that =
     (let d = int (BigNum_precision this) - int (BigNum_precision that) in
      bindE (BigInt_pow10 \<bar>d\<bar>) (\<lambda>padding.
      bindE (BigNum_asBigInt this) (\<lambda>a.
      bindE (BigNum_asBigInt that) (\<lambda>b.
        let sum = BigInt_toString (if d > 0 then a + b * padding else a * padding + b);
            prec = max (BigNum_precision this) (BigNum_precision that);
            i = int (length sum) - int prec
        in BigNum_new (substring sum 0 i @ ''.'' @ substring_from sum i)))))"

definition BigNum_sub :: "BigNum \<Rightarrow> BigNum \<Rightarrow> error + BigNum" where
  "BigNum_sub this that =
     (let d = int (BigNum_precision this) - int (BigNum_precision that) in
      bindE (BigInt_pow10 \<bar>d\<bar>) (\<lambda>padding.
      bindE (BigNum_asBigInt this) (\<lambda>a.
      bindE (BigNum_asBigInt that) (\<lambda>b.
        let diff = BigInt_toString (if d > 0 then a - b * padding else a * padding - b);
            prec = max (BigNum_precision this) (BigNum_precision that);
            i = int (length diff) - int prec
        in BigNum_new (substring diff 0 i @ ''.'' @ substring_from diff i)))))"

definition BigNum_mul :: "BigNum \<Rightarrow> BigNum \<Rightarrow> error + BigNum" where
  "BigNum_mul this that =
     bindE (BigNum_asBigInt this) (\<lambda>a.
     bindE (BigNum_asBigInt that) (\<lambda>b.
       let prod = BigInt_toString (a * b);
           prec = BigNum_precision this + BigNum_precision that;
           i = int (length prod) - int prec
       in BigNum_new (substring prod 0 i @ ''.'' @ substring_from prod i)))"

text \<open>
  \<open>div\<close>. The guard tests the \<open>sign\<close> getter, which compares the stored strings with
  \<open>"0"\<close>. \<open>BigInt\<close> division by \<open>0n\<close> throws a \<open>RangeError\<close>; the quotient string is
  padded on the left with \<open>'0'\<close> up to \<open>p\<close> characters.
\<close>

definition BigNum_div :: "BigNum \<Rightarrow> BigNum \<Rightarrow> error + BigNum" where
  "BigNum_div this that =
     (if BigNum_sign that = 0 then
        (if BigNum_sign this = 0 then Inl IndeterminateForm else Inl DivisionByZero)
      else
        let p = precision DEFAULT_CONTEXT;
            raise = int p - int (BigNum_precision this) + int (BigNum_precision that)
        in bindE (BigNum_asBigInt this) (\<lambda>n.
           bindE (BigInt_pow10 raise) (\<lambda>m.
           bindE (BigNum_asBigInt that) (\<lambda>b.
             let a = n * m in
             if b = 0 then Inl RangeError
             else
               let quo0 = BigInt_toString (a sdiv b);
                   quo = (if p > length quo0 then replicate (p - length quo0) CHR ''0'' @ quo0
                          else quo0);
                   i = int (length quo) - int p
               in BigNum_new (substring quo 0 i @ ''.'' @ substring_from quo i)))))"

text \<open>
  The numerical value a \<open>BigNum\<close> stands for: its unscaled integer over ten to the
  number of stored fractional digits. It is undefined when the stored strings are not a
  decimal numeral (\<open>asBigInt\<close> throws).
\<close>

definition BigNum_val :: "BigNum \<Rightarrow> rat option" where
  "BigNum_val x =
     (case BigNum_asBigInt x of
        Inl e \<Rightarrow> None
      | Inr n \<Rightarrow> Some (of_int n / 10 ^ BigNum_precision x))"

text \<open>
  The shape of a number the constructor builds from a decimal literal: the integer part
  is digits with an optional minus sign, the fractional part is a non-empty run of digits
  without a trailing zero, unless it is the single digit \<open>"0"\<close>.
\<close>

definition BigNum_wf :: "BigNum \<Rightarrow> bool" where
  "BigNum_wf x =
     ((all_digits (integer x)
         \<or> (take 1 (integer x) = ''-'' \<and> all_digits (drop 1 (integer x))))
      \<and> decimal x \<noteq> [] \<and> all_digits (decimal x)
      \<and> (decimal x = ''0'' \<or> last (decimal x) \<noteq> CHR ''0''))"

text \<open>
  A number is exactly representable with \<open>p\<close> fractional digits when its value times
  \<open>10 ^ p\<close> is an integer.
\<close>

definition BigNum_exact_at :: "BigNum \<Rightarrow> nat \<Rightarrow> bool" where
  "BigNum_exact_at x p =
     (case BigNum_val x of
        None \<Rightarrow> False
      | Some v \<Rightarrow> of_int \<lfloor>v * 10 ^ p\<rfloor> = v * 10 ^ p)"

section \<open>Parsing of decimal literals (\<open>parseNum\<close> and its helpers)\<close>

text \<open>
  \<open>String.prototype.indexOf(c)\<close> for a one-character needle: the first position, or \<open>-1\<close>.
\<close>

fun indexOf :: "string \<Rightarrow> char \<Rightarrow> int" where
  "indexOf [] c = - 1"
| "indexOf (x # xs) c =
     (if x = c then 0 else (let r = indexOf xs c in if r < 0 then - 1 else r + 1))"

datatype pos = End | Start

definition trimStart :: "string \<Rightarrow> char \<Rightarrow> string" where
  "trimStart s zero = dropWhile (\<lambda>x. x = zero) s"

definition trimEnd :: "string \<Rightarrow> char \<Rightarrow> string" where
  "trimEnd s zero = rev (dropWhile (\<lambda>x. x = zero) (rev s))"

definition trimZeroes :: "string \<Rightarrow> pos \<Rightarrow> char \<Rightarrow> string" where
  "trimZeroes s p zero = (if p = End then trimEnd s zero else trimStart s zero)"

text \<open>
  \<open>isInteger\<close>: \<open>x in valids\<close> asks whether the character is a property name of the
  ten-element array, which holds exactly for the one-character names \<open>"0"\<close> to \<open>"9"\<close>.
\<close>

definition isInteger :: "string \<Rightarrow> bool \<Rightarrow> bool" where
  "isInteger s positive =
     (let ch = take 1 s;
          st = (if positive then (if ch = ''+'' then substring_from s 1 else s)
                else (if ch = ''+'' \<or> ch = ''-'' then substring_from s 1 else s))
      in list_all is_digit st)"

definition isDecimal :: "string \<Rightarrow> bool" where
  "isDecimal s =
     (case split CHR ''.'' s of
        [p0] \<Rightarrow> isInteger p0 False
      | [p0, p1] \<Rightarrow> isInteger p0 False \<and> isInteger p1 True
      | _ \<Rightarrow> False)"

definition isValid :: "string \<Rightarrow> bool" where
  "isValid s =
     (if indexOf s CHR ''e'' > - 1 then
        let i = indexOf s CHR ''e'';
            mantissa = substring s 0 i;
            exponent = substring_from s (i + 1)
        in isDecimal mantissa \<and> isInteger exponent False
      else isDecimal s)"

text \<open>
  \<open>pad\<close>: \<open>"".padEnd(n, char)\<close> repeats \<open>char\<close> up to length \<open>n\<close> and is empty for
  \<open>n \<le> 0\<close> or an empty \<open>char\<close>. A string longer than the engine's limit cannot be
  built: \<open>padEnd\<close> and the concatenation throw a \<open>RangeError\<close>. The limit is the
  parameter \<open>maxlen\<close>: the language bounds it by \<open>2 ^ 53 - 1\<close>, and V8 sets it at
  \<open>2 ^ 29 - 24\<close> characters.
\<close>

definition pad :: "nat \<Rightarrow> string \<Rightarrow> int \<Rightarrow> string \<Rightarrow> bool \<Rightarrow> error + string" where
  "pad maxlen s n char front =
     (if length char > 1 then Inl PaddingError
      else
        let filler = concat (replicate (nat n) char) in
        if length s + length filler > maxlen then Inl RangeError
        else Inr (if front then filler @ s else s @ filler))"

text \<open>
  \<open>decimate\<close>. The index is a \<open>number\<close> and may be \<open>NaN\<close> (\<open>None\<close>): every comparison
  with \<open>NaN\<close> is false and \<open>substring\<close> reads \<open>NaN\<close> as 0. The result is built by
  concatenation and is subject to the same limit on its length.
\<close>

definition limited :: "nat \<Rightarrow> string \<Rightarrow> error + string" where
  "limited maxlen r = (if length r > maxlen then Inl RangeError else Inr r)"

definition decimate :: "nat \<Rightarrow> string \<Rightarrow> int option \<Rightarrow> error + string" where
  "decimate maxlen a index =
     (if (case index of None \<Rightarrow> False | Some k \<Rightarrow> k < 0) then Inl NegativeIndex
      else
        let neg = (take 1 a = ''-'');
            s = (if neg then substring_from a 1 else a);
            sgn = (if neg then ''-'' else [])
        in case index of
             None \<Rightarrow> limited maxlen (sgn @ substring s 0 0 @ ''.'' @ substring_from s 0)
           | Some k \<Rightarrow>
               if k > int (length s) then
                 bindE (pad maxlen s (k - int (length s)) ''0'' True)
                   (\<lambda>t. limited maxlen (sgn @ ''0.'' @ t))
               else limited maxlen (sgn @ substring s 0 (int (length s) - k) @ ''.''
                                     @ substring_from s (int (length s) - k)))"

text \<open>
  \<open>Number(string)\<close> on the text of an exponent that passed \<open>isInteger\<close>: the empty
  string is 0, a sign alone is \<open>NaN\<close>. The double is taken as the exact integer: where the
  two differ, beyond \<open>2 ^ 53\<close>, the padding asked for exceeds any string limit either way.
\<close>

definition Number_of_string :: "string \<Rightarrow> int option" where
  "Number_of_string s =
     (case s of
        [] \<Rightarrow> Some 0
      | c # cs \<Rightarrow>
          if c = CHR ''-'' then
            (if cs \<noteq> [] \<and> all_digits cs then Some (- int (digits_val cs)) else None)
          else if c = CHR ''+'' then
            (if cs \<noteq> [] \<and> all_digits cs then Some (int (digits_val cs)) else None)
          else if all_digits s then Some (int (digits_val s))
          else None)"

definition parseNum :: "nat \<Rightarrow> string \<Rightarrow> error + string \<times> string" where
  "parseNum maxlen s =
     (if \<not> isValid s then Inl IllegalNumberFormat
      else
        bindE
          (if indexOf s CHR ''e'' > - 1 then
             let i = indexOf s CHR ''e'';
                 mantissa = substring s 0 i;
                 exponent = Number_of_string (substring_from s (i + 1));
                 index = indexOf mantissa CHR ''.'';
                 prec = (if index = - 1 then 0
                         else int (length (substring_from mantissa (index + 1))));
                 num = concat (split CHR ''.'' mantissa)
             in bindE
                  (case exponent of
                     Some e \<Rightarrow>
                       if e > prec then pad maxlen mantissa (e - prec) ''0'' False
                       else decimate maxlen num (Some (prec - e))
                   | None \<Rightarrow> decimate maxlen num None)
                  (\<lambda>num'. Inr (split CHR ''.'' num'))
           else Inr (split CHR ''.'' s))
          (\<lambda>a. case a of
                 [a0] \<Rightarrow> Inr (trimZeroes a0 Start CHR ''0'', [])
               | a0 # a1 # _ \<Rightarrow> Inr (trimZeroes a0 Start CHR ''0'', trimZeroes a1 End CHR ''0'')
               | [] \<Rightarrow> Inr ([], [])))"

text \<open>
  The defects of a literal, in the words of the specification: more than one decimal
  point, more than one exponent marker, or a character that is neither a digit, nor the
  point, nor the exponent marker, nor a sign leading the literal or its exponent.
\<close>

definition spec_illegal_char :: "string \<Rightarrow> bool" where
  "spec_illegal_char s =
     (\<exists>k < length s.
        \<not> is_digit (s ! k) \<and> s ! k \<noteq> CHR ''.'' \<and> s ! k \<noteq> CHR ''e''
        \<and> \<not> ((s ! k = CHR ''+'' \<or> s ! k = CHR ''-'') \<and> (k = 0 \<or> s ! (k - 1) = CHR ''e'')))"

definition spec_format_defect :: "string \<Rightarrow> bool" where
  "spec_format_defect s =
     (count_list s CHR ''.'' > 1 \<or> spec_illegal_char s \<or> count_list s CHR ''e'' > 1)"

text \<open>
  The form of a decimal literal: an optional sign and digits; optionally a point and
  digits; optionally \<open>e\<close>, an optional sign and digits. Every run of digits may be empty.
\<close>

definition strict_form :: "string \<Rightarrow> bool" where
  "strict_form s =
     (\<exists>sg ip fr ex.
        s = sg @ ip @ fr @ ex
        \<and> (sg = [] \<or> sg = ''+'' \<or> sg = ''-'') \<and> all_digits ip
        \<and> (fr = [] \<or> (\<exists>fd. fr = ''.'' @ fd \<and> all_digits fd))
        \<and> (ex = [] \<or> (\<exists>es ed. ex = ''e'' @ es @ ed \<and> (es = [] \<or> es = ''+'' \<or> es = ''-'')
                                   \<and> all_digits ed)))"

text \<open>A \<open>+\<close> directly after a decimal point.\<close>

fun plus_after_point :: "string \<Rightarrow> bool" where
  "plus_after_point (a # b # cs) = ((a = CHR ''.'' \<and> b = CHR ''+'') \<or> plus_after_point (b # cs))"
| "plus_after_point cs = False"

text \<open>
  The exponent of a literal in scientific notation as \<open>parseNum\<close> reads it, and a bound
  under which every string it builds for the literal fits the limit: the length of the
  literal, the magnitude of the exponent and three more characters (\<open>"-0."\<close>).
\<close>

definition exponent_of :: "string \<Rightarrow> int option" where
  "exponent_of s = Number_of_string (substring_from s (indexOf s CHR ''e'' + 1))"

definition fits :: "nat \<Rightarrow> string \<Rightarrow> bool" where
  "fits maxlen s =
     (int (length s) + (case exponent_of s of None \<Rightarrow> 0 | Some e \<Rightarrow> \<bar>e\<bar>) + 3 \<le> int maxlen)"

text \<open>
  What \<open>isValid\<close> accepts, as a grammar: the form above, and also a \<open>+\<close> between the
  point and the digits of the fraction.
\<close>

definition literal_form :: "string \<Rightarrow> bool" where
  "literal_form s =
     (\<exists>sg ip fr ex.
        s = sg @ ip @ fr @ ex
        \<and> (sg = [] \<or> sg = ''+'' \<or> sg = ''-'') \<and> all_digits ip
        \<and> (fr = [] \<or> (\<exists>pl fd. fr = ''.'' @ pl @ fd \<and> (pl = [] \<or> pl = ''+'') \<and> all_digits fd))
        \<and> (ex = [] \<or> (\<exists>es ed. ex = ''e'' @ es @ ed \<and> (es = [] \<or> es = ''+'' \<or> es = ''-'')
                                   \<and> all_digits ed)))"

section \<open>HyperNumber\<close>

text \<open>
  Modelled from the spec: the hypercomplex class (the spec's HyperNumber) is not among the
  sources, only its tests are. A HyperNumber of dimension \<open>2 ^ n\<close> is the list of its
  components, \<open>n\<close> counting the doublings. The components are taken in any commutative
  ring, the exact decimals being one.
\<close>

text \<open>
  Modelled from the spec: \<open>conj\<close> negates the components \<open>1..dim-1\<close> and keeps
  component 0.
\<close>

definition Hyper_conj :: "'a::comm_ring_1 list \<Rightarrow> 'a list" where
  "Hyper_conj a = (case a of [] \<Rightarrow> [] | x # xs \<Rightarrow> x # map uminus xs)"

text \<open>
  Modelled from the spec: \<open>add\<close> and \<open>sub\<close> are elementwise and zero-extend the
  shorter operand.
\<close>

fun Hyper_add :: "'a::comm_ring_1 list \<Rightarrow> 'a list \<Rightarrow> 'a list" where
  "Hyper_add [] ys = ys"
| "Hyper_add xs [] = xs"
| "Hyper_add (x # xs) (y # ys) = (x + y) # Hyper_add xs ys"

fun Hyper_sub :: "'a::comm_ring_1 list \<Rightarrow> 'a list \<Rightarrow> 'a list" where
  "Hyper_sub [] ys = map uminus ys"
| "Hyper_sub xs [] = xs"
| "Hyper_sub (x # xs) (y # ys) = (x - y) # Hyper_sub xs ys"

text \<open>
  Modelled from the spec: \<open>mul\<close> is the Cayley-Dickson recursive product. Each operand
  is split into its halves of length \<open>dim / 2\<close>; for \<open>a = (a1, a2)\<close> and
  \<open>b = (b1, b2)\<close> the product is \<open>(a1 b1 - conj(b2) a2, b2 a1 + a2 conj(b1))\<close>, each
  inner product one level down; at dimension 1 it is the product of the two components.
\<close>

fun Hyper_mul :: "nat \<Rightarrow> 'a::comm_ring_1 list \<Rightarrow> 'a list \<Rightarrow> 'a list" where
  "Hyper_mul 0 a b =
     (case a of [] \<Rightarrow> [] | x # _ \<Rightarrow> (case b of [] \<Rightarrow> [] | y # _ \<Rightarrow> [x * y]))"
| "Hyper_mul (Suc n) a b =
     (let h = 2 ^ n;
          a1 = take h a; a2 = drop h a;
          b1 = take h b; b2 = drop h b
      in Hyper_sub (Hyper_mul n a1 b1) (Hyper_mul n (Hyper_conj b2) a2)
         @ Hyper_add (Hyper_mul n b2 a1) (Hyper_mul n a2 (Hyper_conj b1)))"

text \<open>
  Modelled from the spec: the zero of dimension \<open>2 ^ n\<close>, the HyperNumber with 1 in slot
  \<open>i\<close> and 0 elsewhere, and \<open>real(r)\<close> with \<open>r\<close> in component 0 and 0 elsewhere.
\<close>

definition Hyper_zero :: "nat \<Rightarrow> 'a::comm_ring_1 list" where
  "Hyper_zero n = replicate (2 ^ n) 0"

definition Hyper_unit :: "nat \<Rightarrow> nat \<Rightarrow> 'a::comm_ring_1 list" where
  "Hyper_unit n i = (Hyper_zero n)[i := 1]"

definition Hyper_real :: "nat \<Rightarrow> 'a::comm_ring_1 \<Rightarrow> 'a list" where
  "Hyper_real n r = (Hyper_zero n)[0 := r]"

section \<open>Evaluation on concrete inputs\<close>

lemma nat_digits_0: "nat_digits 0 = ''0''"
  by (simp add: nat_digits.simps digit_char_def)

lemma nat_digits_1: "nat_digits 1 = ''1''"
  by (simp add: nat_digits.simps digit_char_def)

lemma nat_digits_Suc_0: "nat_digits (Suc 0) = ''1''"
  by (simp add: nat_digits.simps digit_char_def)

lemma nat_digits_numeral:
  "nat_digits (numeral k) =
     (if (numeral k :: nat) < 10 then [digit_char (numeral k)]
      else nat_digits (numeral k div 10) @ [digit_char (numeral k mod 10)])"
  by (rule nat_digits.simps)

lemma bit_length_0: "bit_length 0 = 0"
  by (simp add: bit_length.simps)

lemma bit_length_1: "bit_length 1 = 1"
  by (simp add: bit_length.simps)

lemma bit_length_Suc_0: "bit_length (Suc 0) = 1"
  by (simp add: bit_length.simps)

lemma bit_length_numeral: "bit_length (numeral k) = Suc (bit_length (numeral k div 2))"
  by (subst bit_length.simps) simp

lemma bit_length_le: "n < 2 ^ j \<Longrightarrow> bit_length n \<le> j"
proof (induction j arbitrary: n)
  case 0
  then show ?case by (simp add: bit_length.simps)
next
  case (Suc j)
  show ?case
  proof (cases "n = 0")
    case True
    then show ?thesis by (simp add: bit_length.simps)
  next
    case False
    from Suc.prems have "n div 2 < 2 ^ j" by simp
    then have "bit_length (n div 2) \<le> j" by (rule Suc.IH)
    with False show ?thesis by (simp add: bit_length.simps [of n])
  qed
qed

lemma nearest_double_small: "n < 2 ^ 53 \<Longrightarrow> nearest_double n = n"
  using bit_length_le [of n 53] by (simp add: nearest_double_def)

lemma nearest_double_dvd: "2 ^ (bit_length n - 53) dvd n \<Longrightarrow> nearest_double n = n"
proof -
  assume d: "2 ^ (bit_length n - 53) dvd n"
  then have "n mod 2 ^ (bit_length n - 53) = 0" by simp
  moreover have "(0::nat) < 2 ^ (bit_length n - 53 - 1)" by simp
  ultimately show ?thesis using d by (simp add: nearest_double_def Let_def)
qed

lemma nearest_double_scaled:
  assumes "m < 2 ^ 53"
  shows "nearest_double (m * 2 ^ e) = m * 2 ^ e"
proof (rule nearest_double_dvd)
  have "m * 2 ^ e < 2 ^ 53 * 2 ^ e" using assms by simp
  then have "m * 2 ^ e < 2 ^ (53 + e)" by (simp add: power_add)
  then have "bit_length (m * 2 ^ e) \<le> 53 + e" by (rule bit_length_le)
  then have "bit_length (m * 2 ^ e) - 53 \<le> e" by simp
  then have "(2::nat) ^ (bit_length (m * 2 ^ e) - 53) dvd 2 ^ e" by (rule le_imp_power_dvd)
  then show "2 ^ (bit_length (m * 2 ^ e) - 53) dvd m * 2 ^ e" by (rule dvd_mult)
qed

lemma five_power_small: "e \<le> 22 \<Longrightarrow> (5::nat) ^ e < 2 ^ 53"
proof -
  assume "e \<le> 22"
  then have "(5::nat) ^ e \<le> 5 ^ 22" by (rule power_increasing) simp
  also have "\<dots> < 2 ^ 53" by simp
  finally show ?thesis .
qed

lemma nearest_double_pow10: "e \<le> 22 \<Longrightarrow> nearest_double (10 ^ e) = 10 ^ e"
proof -
  assume e: "e \<le> 22"
  have eq: "(10::nat) ^ e = 5 ^ e * 2 ^ e" by (simp add: power_mult_distrib [symmetric])
  show ?thesis unfolding eq by (rule nearest_double_scaled [OF five_power_small [OF e]])
qed

lemma nearest_double_5_pow10: "e \<le> 21 \<Longrightarrow> nearest_double (5 * 10 ^ e) = 5 * 10 ^ e"
proof -
  assume e: "e \<le> 21"
  then have "Suc e \<le> 22" by simp
  then have s: "(5::nat) ^ Suc e < 2 ^ 53" by (rule five_power_small)
  have eq: "(5::nat) * 10 ^ e = 5 ^ Suc e * 2 ^ e" by (simp add: power_mult_distrib [symmetric])
  show ?thesis unfolding eq by (rule nearest_double_scaled [OF s])
qed

lemma BigInt_pow10_exact: "0 \<le> e \<Longrightarrow> e \<le> 22 \<Longrightarrow> BigInt_pow10 e = Inr (10 ^ nat e)"
  by (simp add: BigInt_pow10_def nearest_double_pow10)

lemma BigInt_5_pow10_exact: "e \<le> 21 \<Longrightarrow> BigInt_5_pow10 e = 5 * 10 ^ e"
  by (simp add: BigInt_5_pow10_def nearest_double_pow10 nearest_double_5_pow10)

lemma BigInt_pow10_23: "BigInt_pow10 23 = Inr 99999999999999991611392"
  by (simp add: BigInt_pow10_def nearest_double_def Let_def
      bit_length_0 bit_length_1 bit_length_Suc_0 bit_length_numeral)

lemmas js_eval_defs =
  bindE_def or_zero_def is0_def is_digit_def digit_val_def digit_char_def
  substring_def substring_from_def digits_val_def all_digits_def
  trim_def is_space_def BigInt_of_string_def BigInt_pow10_exact BigInt_5_pow10_exact
  nat_digits_0 nat_digits_1 nat_digits_Suc_0 nat_digits_numeral
  signed_divide_int_def signed_modulo_int_def

lemmas BigNum_eval_defs =
  BigNum_new_def BigNum_asBigInt_def BigNum_precision_def BigNum_sign_def
  BigNum_toString_def BigNum_val_def round_switch_def BigNum_round_def
  BigNum_add_def BigNum_div_def DEFAULT_CONTEXT_def

lemma new_2_5: "BigNum_new ''2.5'' = Inr \<lparr>integer = ''2'', decimal = ''5''\<rparr>"
  by (simp add: BigNum_new_def js_eval_defs)

lemma new_3: "BigNum_new ''3'' = Inr \<lparr>integer = ''3'', decimal = ''0''\<rparr>"
  by (simp add: BigNum_new_def js_eval_defs)

lemma new_2: "BigNum_new ''2'' = Inr \<lparr>integer = ''2'', decimal = ''0''\<rparr>"
  by (simp add: BigNum_new_def js_eval_defs)

lemma round_2_5:
  "BigNum_round \<lparr>integer = ''2'', decimal = ''5''\<rparr> \<lparr>precision = 0, rounding = m\<rparr> =
     bindE (round_switch m 2 5 5) (\<lambda>r. BigNum_new (BigInt_toString r @ ''.''))"
  by (simp add: BigNum_round_def BigNum_asBigInt_def BigNum_precision_def js_eval_defs)

text \<open>
  C3. The number created from \<open>"2.5"\<close>, rounded at precision 0: \<open>UP\<close> gives 3,
  \<open>DOWN\<close> 2, \<open>CEIL\<close> 3, \<open>FLOOR\<close> 2, \<open>HALF_UP\<close> 3, \<open>HALF_DOWN\<close> 2 and
  \<open>HALF_EVEN\<close> 2, each result being the number created from \<open>"3"\<close> or \<open>"2"\<close>.
\<close>

theorem round_2_5_table:
  "bindE (BigNum_new ''2.5'') (\<lambda>x. BigNum_round x \<lparr>precision = 0, rounding = UP\<rparr>) = BigNum_new ''3''
   \<and> bindE (BigNum_new ''2.5'') (\<lambda>x. BigNum_round x \<lparr>precision = 0, rounding = DOWN\<rparr>) = BigNum_new ''2''
   \<and> bindE (BigNum_new ''2.5'') (\<lambda>x. BigNum_round x \<lparr>precision = 0, rounding = CEIL\<rparr>) = BigNum_new ''3''
   \<and> bindE (BigNum_new ''2.5'') (\<lambda>x. BigNum_round x \<lparr>precision = 0, rounding = FLOOR\<rparr>) = BigNum_new ''2''
   \<and> bindE (BigNum_new ''2.5'') (\<lambda>x. BigNum_round x \<lparr>precision = 0, rounding = HALF_UP\<rparr>) = BigNum_new ''3''
   \<and> bindE (BigNum_new ''2.5'') (\<lambda>x. BigNum_round x \<lparr>precision = 0, rounding = HALF_DOWN\<rparr>) = BigNum_new ''2''
   \<and> bindE (BigNum_new ''2.5'') (\<lambda>x. BigNum_round x \<lparr>precision = 0, rounding = HALF_EVEN\<rparr>) = BigNum_new ''2''
   \<and> BigNum_new ''3'' = Inr \<lparr>integer = ''3'', decimal = ''0''\<rparr>
   \<and> BigNum_new ''2'' = Inr \<lparr>integer = ''2'', decimal = ''0''\<rparr>"
  by (simp add: new_2_5 new_3 new_2 round_2_5 round_switch_def BigNum_new_def
      BigInt_toString_def js_eval_defs)

text \<open>
  C1, evaluated where it fails. \<open>0.05 + 0.01\<close>: the unscaled sum is 6, its text \<open>"6"\<close>
  is shorter than the two fractional digits, \<open>substring\<close> clamps the negative index
  and the point is put in front of the 6. The result stands for 0.6, not for 0.06. (\<open>div\<close>
  pads its quotient with zeros for this case; \<open>add\<close> does not.)
\<close>

theorem add_small_fractions_inexact:
  "BigNum_new ''0.05'' = Inr \<lparr>integer = ''0'', decimal = ''05''\<rparr>
   \<and> BigNum_new ''0.01'' = Inr \<lparr>integer = ''0'', decimal = ''01''\<rparr>
   \<and> BigNum_val \<lparr>integer = ''0'', decimal = ''05''\<rparr> = Some (5 / 100)
   \<and> BigNum_val \<lparr>integer = ''0'', decimal = ''01''\<rparr> = Some (1 / 100)
   \<and> BigNum_add \<lparr>integer = ''0'', decimal = ''05''\<rparr> \<lparr>integer = ''0'', decimal = ''01''\<rparr>
       = Inr \<lparr>integer = ''0'', decimal = ''6''\<rparr>
   \<and> BigNum_val \<lparr>integer = ''0'', decimal = ''6''\<rparr> = Some (6 / 10)"
  by (simp add: BigNum_eval_defs BigInt_toString_def js_eval_defs)

text \<open>
  C4, evaluated where it fails. The leading-zero loop of the constructor stops at the
  sign, so \<open>"-007.5"\<close> keeps its zeros: \<open>toString\<close> gives \<open>"-007.5"\<close>, and the
  canonical form is \<open>"-7.5"\<close>. Without the sign the zeros go: \<open>"007.50"\<close> gives
  \<open>"7.5"\<close>.
\<close>

theorem toString_signed_keeps_leading_zeros:
  "BigNum_new ''-007.5'' = Inr \<lparr>integer = ''-007'', decimal = ''5''\<rparr>
   \<and> BigNum_toString \<lparr>integer = ''-007'', decimal = ''5''\<rparr> = ''-007.5''
   \<and> BigNum_new ''007.50'' = Inr \<lparr>integer = ''7'', decimal = ''5''\<rparr>
   \<and> BigNum_toString \<lparr>integer = ''7'', decimal = ''5''\<rparr> = ''7.5''"
  by (simp add: BigNum_eval_defs BigInt_toString_def js_eval_defs)

text \<open>
  C5, evaluated where it fails. \<open>"-0"\<close> is stored as integer part \<open>"-0"\<close>, for which
  the \<open>sign\<close> getter answers \<open>-1\<close>, although the value is zero. As a divisor it passes
  the guard and the \<open>BigInt\<close> division throws a \<open>RangeError\<close>, not \<open>DivisionByZero\<close>;
  as a dividend over zero it gives \<open>DivisionByZero\<close>, not \<open>IndeterminateForm\<close>.
\<close>

theorem div_negative_zero:
  "BigNum_new ''-0'' = Inr \<lparr>integer = ''-0'', decimal = ''0''\<rparr>
   \<and> BigNum_new ''0'' = Inr \<lparr>integer = ''0'', decimal = ''0''\<rparr>
   \<and> BigNum_new ''1'' = Inr \<lparr>integer = ''1'', decimal = ''0''\<rparr>
   \<and> BigNum_val \<lparr>integer = ''-0'', decimal = ''0''\<rparr> = Some 0
   \<and> BigNum_val \<lparr>integer = ''1'', decimal = ''0''\<rparr> = Some 1
   \<and> BigNum_div \<lparr>integer = ''1'', decimal = ''0''\<rparr> \<lparr>integer = ''-0'', decimal = ''0''\<rparr>
       = Inl RangeError
   \<and> BigNum_div \<lparr>integer = ''-0'', decimal = ''0''\<rparr> \<lparr>integer = ''0'', decimal = ''0''\<rparr>
       = Inl DivisionByZero"
  by (simp add: BigNum_eval_defs BigInt_toString_def js_eval_defs)

lemma asBigInt_2: "BigNum_asBigInt \<lparr>integer = ''2'', decimal = ''0''\<rparr> = Inr 20"
  by (simp add: BigNum_asBigInt_def js_eval_defs)

lemma asBigInt_3: "BigNum_asBigInt \<lparr>integer = ''3'', decimal = ''0''\<rparr> = Inr 30"
  by (simp add: BigNum_asBigInt_def js_eval_defs)

lemma quotient_2_3: "(20 * 10 ^ 17) sdiv (30::int) = 66666666666666666"
  by (simp add: signed_divide_int_def)

lemma toString_sixes: "BigInt_toString 66666666666666666 = ''66666666666666666''"
  by (simp add: BigInt_toString_def js_eval_defs)

lemma new_sixes:
  "BigNum_new (CHR ''.'' # ''66666666666666666'')
     = Inr \<lparr>integer = ''0'', decimal = ''66666666666666666''\<rparr>"
  by (simp add: BigNum_new_def js_eval_defs)

lemma div_2_3:
  "BigNum_div \<lparr>integer = ''2'', decimal = ''0''\<rparr> \<lparr>integer = ''3'', decimal = ''0''\<rparr>
     = Inr \<lparr>integer = ''0'', decimal = ''66666666666666666''\<rparr>"
  by (simp add: BigNum_div_def BigNum_sign_def BigNum_precision_def DEFAULT_CONTEXT_def
      asBigInt_2 asBigInt_3 quotient_2_3 toString_sixes new_sixes
      bindE_def BigInt_pow10_exact substring_def substring_from_def Let_def)

lemma val_sixes:
  "BigNum_val \<lparr>integer = ''0'', decimal = ''66666666666666666''\<rparr>
     = Some (66666666666666666 / 10 ^ 17)"
  by (simp add: BigNum_val_def BigNum_asBigInt_def BigNum_precision_def js_eval_defs)

lemma nearer_two_thirds:
  "\<bar>(2 / 3 :: rat) - 66666666666666667 / 10 ^ 17\<bar> < \<bar>2 / 3 - 66666666666666666 / 10 ^ 17\<bar>"
  by simp

text \<open>
  C2, evaluated where it fails. \<open>2 / 3\<close>: \<open>div\<close> reads only the precision of the
  default context and keeps the truncated \<open>BigInt\<close> quotient, \<open>0.66666666666666666\<close>.
  The quotient rounded to 17 digits under \<open>HALF_EVEN\<close> is \<open>0.66666666666666667\<close>,
  which is nearer to \<open>2 / 3\<close>.
\<close>

theorem div_truncates_two_thirds:
  "BigNum_new ''2'' = Inr \<lparr>integer = ''2'', decimal = ''0''\<rparr>
   \<and> BigNum_new ''3'' = Inr \<lparr>integer = ''3'', decimal = ''0''\<rparr>
   \<and> BigNum_div \<lparr>integer = ''2'', decimal = ''0''\<rparr> \<lparr>integer = ''3'', decimal = ''0''\<rparr>
       = Inr \<lparr>integer = ''0'', decimal = ''66666666666666666''\<rparr>
   \<and> BigNum_val \<lparr>integer = ''0'', decimal = ''66666666666666666''\<rparr>
       = Some (66666666666666666 / 10 ^ 17)
   \<and> \<bar>(2 / 3 :: rat) - 66666666666666667 / 10 ^ 17\<bar>
       < \<bar>2 / 3 - 66666666666666666 / 10 ^ 17\<bar>"
  using new_2 new_3 div_2_3 val_sixes nearer_two_thirds by blast

section \<open>The format check of \<open>parseNum\<close>\<close>

lemma substring_from_1: "substring_from s 1 = drop 1 s"
  by (cases s) (auto simp: substring_from_def substring_def Let_def)

lemma isInteger_False_iff:
  "isInteger s False = (\<exists>sg ds. s = sg @ ds \<and> (sg = [] \<or> sg = ''+'' \<or> sg = ''-'') \<and> all_digits ds)"
proof
  assume a: "isInteger s False"
  show "\<exists>sg ds. s = sg @ ds \<and> (sg = [] \<or> sg = ''+'' \<or> sg = ''-'') \<and> all_digits ds"
  proof (cases "take 1 s = ''+'' \<or> take 1 s = ''-''")
    case True
    have "s = take 1 s @ drop 1 s" by simp
    moreover have "all_digits (drop 1 s)"
      using a True by (auto simp: isInteger_def substring_from_1 all_digits_def)
    ultimately show ?thesis using True by metis
  next
    case False
    then have "all_digits s" using a by (auto simp: isInteger_def all_digits_def)
    then show ?thesis by auto
  qed
next
  assume "\<exists>sg ds. s = sg @ ds \<and> (sg = [] \<or> sg = ''+'' \<or> sg = ''-'') \<and> all_digits ds"
  then obtain sg ds where s: "s = sg @ ds" and sg: "sg = [] \<or> sg = ''+'' \<or> sg = ''-''"
    and d: "all_digits ds" by blast
  from sg show "isInteger s False"
  proof (elim disjE)
    assume "sg = []"
    with s d show ?thesis
      by (cases ds) (auto simp: isInteger_def all_digits_def is_digit_def)
  next
    assume "sg = ''+''"
    with s d show ?thesis by (auto simp: isInteger_def all_digits_def substring_from_1)
  next
    assume "sg = ''-''"
    with s d show ?thesis by (auto simp: isInteger_def all_digits_def substring_from_1)
  qed
qed

lemma isInteger_True_iff:
  "isInteger s True = (\<exists>pl ds. s = pl @ ds \<and> (pl = [] \<or> pl = ''+'') \<and> all_digits ds)"
proof
  assume a: "isInteger s True"
  show "\<exists>pl ds. s = pl @ ds \<and> (pl = [] \<or> pl = ''+'') \<and> all_digits ds"
  proof (cases "take 1 s = ''+''")
    case True
    have "s = take 1 s @ drop 1 s" by simp
    moreover have "all_digits (drop 1 s)"
      using a True by (auto simp: isInteger_def substring_from_1 all_digits_def)
    ultimately show ?thesis using True by metis
  next
    case False
    then have "all_digits s" using a by (auto simp: isInteger_def all_digits_def)
    then show ?thesis by auto
  qed
next
  assume "\<exists>pl ds. s = pl @ ds \<and> (pl = [] \<or> pl = ''+'') \<and> all_digits ds"
  then obtain pl ds where s: "s = pl @ ds" and pl: "pl = [] \<or> pl = ''+''"
    and d: "all_digits ds" by blast
  from pl show "isInteger s True"
  proof (elim disjE)
    assume "pl = []"
    with s d show ?thesis
      by (cases ds) (auto simp: isInteger_def all_digits_def is_digit_def)
  next
    assume "pl = ''+''"
    with s d show ?thesis by (auto simp: isInteger_def all_digits_def substring_from_1)
  qed
qed

lemma isInteger_chars:
  "isInteger s b \<Longrightarrow> x \<in> set s \<Longrightarrow> is_digit x \<or> x = CHR ''+'' \<or> x = CHR ''-''"
  by (cases b) (auto simp: isInteger_True_iff isInteger_False_iff all_digits_def list_all_iff)

lemma isInteger_no_point: "isInteger s b \<Longrightarrow> CHR ''.'' \<notin> set s"
  by (auto dest: isInteger_chars simp: is_digit_def)

lemma isInteger_no_e: "isInteger s b \<Longrightarrow> CHR ''e'' \<notin> set s"
  by (auto dest: isInteger_chars simp: is_digit_def)

lemma split_ne: "split c s \<noteq> []"
  by (induction s) (auto split: list.splits)

lemma split_none: "c \<notin> set a \<Longrightarrow> split c a = [a]"
  by (induction a) auto

lemma split_first: "c \<notin> set a \<Longrightarrow> split c (a @ c # b) = a # split c b"
  by (induction a) auto

lemma split_cases:
  "(c \<notin> set s \<and> split c s = [s])
   \<or> (\<exists>a b. s = a @ c # b \<and> c \<notin> set a \<and> split c s = a # split c b)"
proof (cases "c \<in> set s")
  case True
  then obtain a b where "s = a @ c # b" "c \<notin> set a" by (meson split_list_first)
  then show ?thesis by (auto simp: split_first)
next
  case False
  then show ?thesis by (simp add: split_none)
qed


lemma split_one_iff: "(split c s = [p]) = (c \<notin> set s \<and> p = s)"
proof (cases "c \<in> set s")
  case True
  then obtain a b where "s = a @ c # b" "c \<notin> set a" by (meson split_list_first)
  then have "split c s = a # split c b" by (simp add: split_first)
  with split_ne [of c b] have "split c s \<noteq> [p]" by auto
  with True show ?thesis by simp
next
  case False
  then show ?thesis by (auto simp: split_none)
qed

lemma split_two_iff:
  "(split c s = [p, q]) = (s = p @ c # q \<and> c \<notin> set p \<and> c \<notin> set q)"
proof
  assume h: "split c s = [p, q]"
  from split_cases [of c s] h obtain a b where
    ab: "s = a @ c # b" "c \<notin> set a" "split c s = a # split c b" by auto
  with h have "a = p" "split c b = [q]" by auto
  with ab show "s = p @ c # q \<and> c \<notin> set p \<and> c \<notin> set q"
    by (auto simp: split_one_iff)
next
  assume "s = p @ c # q \<and> c \<notin> set p \<and> c \<notin> set q"
  then show "split c s = [p, q]" by (simp add: split_first split_none)
qed

lemma isDecimal_iff:
  "isDecimal s =
     (isInteger s False
      \<or> (\<exists>ip fp. s = ip @ CHR ''.'' # fp \<and> isInteger ip False \<and> isInteger fp True))"
proof -
  consider (none) "CHR ''.'' \<notin> set s" "split CHR ''.'' s = [s]"
    | (some) a b where "s = a @ CHR ''.'' # b" "CHR ''.'' \<notin> set a"
        "split CHR ''.'' s = a # split CHR ''.'' b"
    using split_cases [of "CHR ''.''" s] by blast
  then show ?thesis
  proof cases
    case none
    then show ?thesis by (auto simp: isDecimal_def)
  next
    case some
    have nI: "\<not> isInteger s False" using some(1) isInteger_no_point [of s False] by auto
    show ?thesis
    proof (cases "CHR ''.'' \<in> set b")
      case True
      then have "length (split CHR ''.'' b) \<ge> 2"
        using split_cases [of "CHR ''.''" b] split_ne [of "CHR ''.''"]
        by (auto simp: Suc_le_eq numeral_2_eq_2 neq_Nil_conv)
      then have "\<not> isDecimal s"
        using some(3) by (auto simp: isDecimal_def split: list.splits)
      moreover have "\<not> (\<exists>ip fp. s = ip @ CHR ''.'' # fp \<and> isInteger ip False \<and> isInteger fp True)"
      proof
        assume "\<exists>ip fp. s = ip @ CHR ''.'' # fp \<and> isInteger ip False \<and> isInteger fp True"
        then obtain ip fp where x: "s = ip @ CHR ''.'' # fp" "isInteger ip False" "isInteger fp True"
          by blast
        then have "CHR ''.'' \<notin> set ip" "CHR ''.'' \<notin> set fp"
          by (auto dest: isInteger_no_point)
        with x(1) some(1,2) have "ip = a \<and> fp = b"
          by (metis append_Cons_eq_iff)
        with True \<open>CHR ''.'' \<notin> set fp\<close> show False by simp
      qed
      ultimately show ?thesis using nI by simp
    next
      case False
      then have sp: "split CHR ''.'' s = [a, b]" using some by (simp add: split_first split_none)
      have "(\<exists>ip fp. s = ip @ CHR ''.'' # fp \<and> isInteger ip False \<and> isInteger fp True)
              = (isInteger a False \<and> isInteger b True)"
      proof
        assume "\<exists>ip fp. s = ip @ CHR ''.'' # fp \<and> isInteger ip False \<and> isInteger fp True"
        then obtain ip fp where x: "s = ip @ CHR ''.'' # fp" "isInteger ip False" "isInteger fp True"
          by blast
        then have "CHR ''.'' \<notin> set ip" "CHR ''.'' \<notin> set fp"
          by (auto dest: isInteger_no_point)
        with x(1) some(1,2) have "ip = a \<and> fp = b"
          by (metis append_Cons_eq_iff)
        with x show "isInteger a False \<and> isInteger b True" by simp
      next
        assume "isInteger a False \<and> isInteger b True"
        with some(1) show "\<exists>ip fp. s = ip @ CHR ''.'' # fp \<and> isInteger ip False \<and> isInteger fp True"
          by blast
      qed
      with sp nI show ?thesis by (simp add: isDecimal_def)
    qed
  qed
qed

lemma isDecimal_no_e: "isDecimal s \<Longrightarrow> CHR ''e'' \<notin> set s"
  by (auto simp: isDecimal_iff dest: isInteger_no_e)

lemma indexOf_ge: "indexOf s c \<ge> - 1"
  by (induction s) (auto simp: Let_def)

lemma indexOf_notin: "c \<notin> set s \<Longrightarrow> indexOf s c = - 1"
  by (induction s) (auto simp: Let_def)

lemma indexOf_first: "c \<notin> set a \<Longrightarrow> indexOf (a @ c # b) c = int (length a)"
  by (induction a) (auto simp: Let_def)

lemma substring_prefix: "substring (a @ b) 0 (int (length a)) = a"
  by (simp add: substring_def Let_def)

lemma substring_from_suffix: "substring_from (a @ c # b) (int (length a) + 1) = b"
proof -
  have "nat (int (length a) + 1) = Suc (length a)" by simp
  then show ?thesis by (simp add: substring_from_def substring_def Let_def)
qed

lemma isValid_iff:
  "isValid s =
     (isDecimal s
      \<or> (\<exists>m x. s = m @ CHR ''e'' # x \<and> isDecimal m \<and> isInteger x False))"
proof (cases "CHR ''e'' \<in> set s")
  case False
  then have "isValid s = isDecimal s" by (simp add: isValid_def indexOf_notin)
  with False show ?thesis by auto
next
  case True
  then obtain a b where ab: "s = a @ CHR ''e'' # b" "CHR ''e'' \<notin> set a"
    by (meson split_list_first)
  then have v: "isValid s = (isDecimal a \<and> isInteger b False)"
    by (simp add: isValid_def indexOf_first substring_prefix substring_from_suffix Let_def)
  have nd: "\<not> isDecimal s" using True isDecimal_no_e by blast
  have "(\<exists>m x. s = m @ CHR ''e'' # x \<and> isDecimal m \<and> isInteger x False)
          = (isDecimal a \<and> isInteger b False)"
  proof
    assume "\<exists>m x. s = m @ CHR ''e'' # x \<and> isDecimal m \<and> isInteger x False"
    then obtain m x where x: "s = m @ CHR ''e'' # x" "isDecimal m" "isInteger x False" by blast
    then have "CHR ''e'' \<notin> set m" "CHR ''e'' \<notin> set x"
      by (auto dest: isDecimal_no_e isInteger_no_e)
    with x(1) ab have "m = a \<and> x = b" by (metis append_Cons_eq_iff)
    with x show "isDecimal a \<and> isInteger b False" by simp
  next
    assume "isDecimal a \<and> isInteger b False"
    with ab(1) show "\<exists>m x. s = m @ CHR ''e'' # x \<and> isDecimal m \<and> isInteger x False" by blast
  qed
  with v nd show ?thesis by simp
qed


lemma isDecimal_form:
  "isDecimal m =
     (\<exists>sg ip fr. m = sg @ ip @ fr
        \<and> (sg = [] \<or> sg = ''+'' \<or> sg = ''-'') \<and> all_digits ip
        \<and> (fr = [] \<or> (\<exists>pl fd. fr = ''.'' @ pl @ fd \<and> (pl = [] \<or> pl = ''+'') \<and> all_digits fd)))"
  (is "_ = ?R")
proof
  assume "isDecimal m"
  then consider (int) "isInteger m False"
    | (frac) ip fp where "m = ip @ CHR ''.'' # fp" "isInteger ip False" "isInteger fp True"
    by (auto simp: isDecimal_iff)
  then show ?R
  proof cases
    case int
    then obtain sg ds where a: "m = sg @ ds" "sg = [] \<or> sg = ''+'' \<or> sg = ''-''" "all_digits ds"
      unfolding isInteger_False_iff by blast
    have "m = sg @ ds @ []" using a(1) by simp
    with a show ?thesis by blast
  next
    case frac
    from frac(2) obtain sg ds where a: "ip = sg @ ds" "sg = [] \<or> sg = ''+'' \<or> sg = ''-''" "all_digits ds"
      unfolding isInteger_False_iff by blast
    from frac(3) obtain pl fd where b: "fp = pl @ fd" "pl = [] \<or> pl = ''+''" "all_digits fd"
      unfolding isInteger_True_iff by blast
    have "m = sg @ ds @ (''.'' @ pl @ fd)" using frac(1) a(1) b(1) by simp
    with a b show ?thesis by blast
  qed
next
  assume ?R
  then obtain sg ip fr where m: "m = sg @ ip @ fr" and sg: "sg = [] \<or> sg = ''+'' \<or> sg = ''-''"
    and ip: "all_digits ip"
    and fr: "fr = [] \<or> (\<exists>pl fd. fr = ''.'' @ pl @ fd \<and> (pl = [] \<or> pl = ''+'') \<and> all_digits fd)"
    by blast
  have i: "isInteger (sg @ ip) False" using sg ip by (auto simp: isInteger_False_iff)
  from fr show "isDecimal m"
  proof
    assume "fr = []"
    with m i show ?thesis by (simp add: isDecimal_iff)
  next
    assume "\<exists>pl fd. fr = ''.'' @ pl @ fd \<and> (pl = [] \<or> pl = ''+'') \<and> all_digits fd"
    then obtain pl fd where f: "fr = ''.'' @ pl @ fd" "pl = [] \<or> pl = ''+''" "all_digits fd" by blast
    then have "isInteger (pl @ fd) True" by (auto simp: isInteger_True_iff)
    moreover have "m = (sg @ ip) @ CHR ''.'' # (pl @ fd)" using m f(1) by simp
    ultimately show ?thesis using i unfolding isDecimal_iff by blast
  qed
qed

lemma literal_formI:
  "s = sg @ ip @ fr @ ex \<Longrightarrow> sg = [] \<or> sg = ''+'' \<or> sg = ''-'' \<Longrightarrow> all_digits ip \<Longrightarrow>
   fr = [] \<or> (\<exists>pl fd. fr = ''.'' @ pl @ fd \<and> (pl = [] \<or> pl = ''+'') \<and> all_digits fd) \<Longrightarrow>
   ex = [] \<or> (\<exists>es ed. ex = ''e'' @ es @ ed \<and> (es = [] \<or> es = ''+'' \<or> es = ''-'') \<and> all_digits ed) \<Longrightarrow>
   literal_form s"
  unfolding literal_form_def by (intro exI [of _ sg] exI [of _ ip] exI [of _ fr] exI [of _ ex] conjI)

lemma isDecimal_formI:
  "m = sg @ ip @ fr \<Longrightarrow> sg = [] \<or> sg = ''+'' \<or> sg = ''-'' \<Longrightarrow> all_digits ip \<Longrightarrow>
   fr = [] \<or> (\<exists>pl fd. fr = ''.'' @ pl @ fd \<and> (pl = [] \<or> pl = ''+'') \<and> all_digits fd) \<Longrightarrow>
   isDecimal m"
  unfolding isDecimal_form by (intro exI [of _ sg] exI [of _ ip] exI [of _ fr] conjI)

lemma isDecimal_formE:
  assumes "isDecimal m"
  obtains sg ip fr where "m = sg @ ip @ fr" "sg = [] \<or> sg = ''+'' \<or> sg = ''-''" "all_digits ip"
    "fr = [] \<or> (\<exists>pl fd. fr = ''.'' @ pl @ fd \<and> (pl = [] \<or> pl = ''+'') \<and> all_digits fd)"
  using assms unfolding isDecimal_form by (elim exE conjE)

lemma isInteger_FalseE:
  assumes "isInteger x False"
  obtains es ed where "x = es @ ed" "es = [] \<or> es = ''+'' \<or> es = ''-''" "all_digits ed"
  using assms unfolding isInteger_False_iff by (elim exE conjE)

lemma isInteger_FalseI:
  "x = es @ ed \<Longrightarrow> es = [] \<or> es = ''+'' \<or> es = ''-'' \<Longrightarrow> all_digits ed \<Longrightarrow> isInteger x False"
  unfolding isInteger_False_iff by (intro exI [of _ es] exI [of _ ed] conjI)

lemma isValid_form: "isValid s = literal_form s"
proof
  assume "isValid s"
  then consider (dec) "isDecimal s"
    | (sci) m x where "s = m @ CHR ''e'' # x" "isDecimal m" "isInteger x False"
    unfolding isValid_iff by (elim disjE exE conjE)
  then show "literal_form s"
  proof cases
    case dec
    from dec obtain sg ip fr where d: "s = sg @ ip @ fr"
      "sg = [] \<or> sg = ''+'' \<or> sg = ''-''" "all_digits ip"
      "fr = [] \<or> (\<exists>pl fd. fr = ''.'' @ pl @ fd \<and> (pl = [] \<or> pl = ''+'') \<and> all_digits fd)"
      by (rule isDecimal_formE)
    have "s = sg @ ip @ fr @ []" using d(1) by simp
    then show ?thesis using d(2,3,4) by (rule literal_formI) simp
  next
    case sci
    from sci(2) obtain sg ip fr where d: "m = sg @ ip @ fr"
      "sg = [] \<or> sg = ''+'' \<or> sg = ''-''" "all_digits ip"
      "fr = [] \<or> (\<exists>pl fd. fr = ''.'' @ pl @ fd \<and> (pl = [] \<or> pl = ''+'') \<and> all_digits fd)"
      by (rule isDecimal_formE)
    from sci(3) obtain es ed where e: "x = es @ ed" "es = [] \<or> es = ''+'' \<or> es = ''-''" "all_digits ed"
      by (rule isInteger_FalseE)
    have s: "s = sg @ ip @ fr @ (''e'' @ es @ ed)" using sci(1) d(1) e(1) by simp
    have "\<exists>es' ed'. ''e'' @ es @ ed = ''e'' @ es' @ ed' \<and> (es' = [] \<or> es' = ''+'' \<or> es' = ''-'')
                                   \<and> all_digits ed'"
      using e(2,3) by (intro exI [of _ es] exI [of _ ed] conjI) simp_all
    then have "''e'' @ es @ ed = [] \<or> (\<exists>es' ed'. ''e'' @ es @ ed = ''e'' @ es' @ ed' \<and> (es' = [] \<or> es' = ''+'' \<or> es' = ''-'')
                                   \<and> all_digits ed')" by (rule disjI2)
    with s d(2,3,4) show ?thesis by (rule literal_formI)
  qed
next
  assume "literal_form s"
  then obtain sg ip fr ex where s: "s = sg @ ip @ fr @ ex"
    and sg: "sg = [] \<or> sg = ''+'' \<or> sg = ''-''" and ip: "all_digits ip"
    and fr: "fr = [] \<or> (\<exists>pl fd. fr = ''.'' @ pl @ fd \<and> (pl = [] \<or> pl = ''+'') \<and> all_digits fd)"
    and ex: "ex = [] \<or> (\<exists>es ed. ex = ''e'' @ es @ ed \<and> (es = [] \<or> es = ''+'' \<or> es = ''-'')
                                   \<and> all_digits ed)"
    unfolding literal_form_def by (elim exE conjE)
  have d: "isDecimal (sg @ ip @ fr)" using refl sg ip fr by (rule isDecimal_formI)
  from ex show "isValid s"
  proof
    assume "ex = []"
    with s d show ?thesis by (simp add: isValid_iff)
  next
    assume "\<exists>es ed. ex = ''e'' @ es @ ed \<and> (es = [] \<or> es = ''+'' \<or> es = ''-'') \<and> all_digits ed"
    then obtain es ed where e: "ex = ''e'' @ es @ ed" "es = [] \<or> es = ''+'' \<or> es = ''-''"
      "all_digits ed" by (elim exE conjE)
    have i: "isInteger (es @ ed) False" using refl e(2,3) by (rule isInteger_FalseI)
    have "s = (sg @ ip @ fr) @ CHR ''e'' # (es @ ed)" using s e(1) by simp
    with d i have "\<exists>m x. s = m @ CHR ''e'' # x \<and> isDecimal m \<and> isInteger x False"
      by (intro exI [of _ "sg @ ip @ fr"] exI [of _ "es @ ed"] conjI)
    then show ?thesis unfolding isValid_iff by (rule disjI2)
  qed
qed

lemma concat_zeros: "concat (replicate k ''0'') = replicate k CHR ''0''"
  by (induction k) auto

lemma pad_zero:
  "pad maxlen s n ''0'' f =
     (if length s + nat n > maxlen then Inl RangeError
      else Inr (if f then replicate (nat n) CHR ''0'' @ s else s @ replicate (nat n) CHR ''0''))"
  by (simp add: pad_def concat_zeros)

lemma length_substring_le: "length (substring s a b) \<le> length s"
  by (simp add: substring_def Let_def min.coboundedI1)

lemma length_substring_from_le: "length (substring_from s a) \<le> length s"
  by (simp add: substring_from_def length_substring_le)

lemma length_join_split: "length (concat (split c m)) \<le> length m"
  by (induction m) (auto split: list.splits)

lemma decimate_cases:
  assumes "case index of None \<Rightarrow> True | Some k \<Rightarrow> 0 \<le> k"
  shows "(\<exists>r. decimate maxlen a index = Inr r) \<or> decimate maxlen a index = Inl RangeError"
  using assms
  by (cases index) (auto simp: decimate_def Let_def pad_zero bindE_def limited_def)

lemma decimate_fits:
  assumes "case index of None \<Rightarrow> True | Some k \<Rightarrow> 0 \<le> k \<and> k + 3 \<le> int maxlen"
    and "length a + 1 \<le> maxlen"
  shows "\<exists>r. decimate maxlen a index = Inr r"
proof -
  define s where "s = (if take 1 a = ''-'' then substring_from a 1 else a)"
  define sgn where "sgn = (if take 1 a = ''-'' then ''-'' else [])"
  have len: "length sgn + length s \<le> length a"
    by (cases a) (auto simp: s_def sgn_def substring_from_1)
  show ?thesis
  proof (cases index)
    case None
    have "decimate maxlen a None = limited maxlen (sgn @ substring s 0 0 @ ''.'' @ substring_from s 0)"
      by (simp add: decimate_def Let_def s_def sgn_def)
    moreover have "length (sgn @ substring s 0 0 @ ''.'' @ substring_from s 0) \<le> maxlen"
      using len assms(2) length_substring_from_le [of s 0] by (simp add: substring_def)
    ultimately show ?thesis using None by (simp add: limited_def)
  next
    case (Some k)
    with assms(1) have k: "0 \<le> k" "k + 3 \<le> int maxlen" by simp_all
    show ?thesis
    proof (cases "k > int (length s)")
      case True
      have "decimate maxlen a (Some k) =
              bindE (pad maxlen s (k - int (length s)) ''0'' True)
                (\<lambda>t. limited maxlen (sgn @ ''0.'' @ t))"
        using True k(1) unfolding s_def sgn_def by (simp add: decimate_def Let_def)
      moreover have "length s + nat (k - int (length s)) = nat k" using True by simp
      moreover have "nat k + 3 \<le> maxlen" using k by simp
      moreover have "length sgn \<le> 1" by (simp add: sgn_def)
      ultimately show ?thesis using Some
        by (simp add: pad_zero bindE_def limited_def)
    next
      case False
      have "decimate maxlen a (Some k) =
              limited maxlen (sgn @ substring s 0 (int (length s) - k) @ ''.''
                               @ substring_from s (int (length s) - k))"
        using False k(1) unfolding s_def sgn_def by (simp add: decimate_def Let_def)
      moreover have "length (sgn @ substring s 0 (int (length s) - k) @ ''.''
                               @ substring_from s (int (length s) - k)) \<le> maxlen"
      proof -
        have "substring s 0 (int (length s) - k) @ substring_from s (int (length s) - k) = s"
          using False k(1) by (simp add: substring_def substring_from_def Let_def min_def max_def)
        then have "length (substring s 0 (int (length s) - k))
                     + length (substring_from s (int (length s) - k)) = length s"
          by (metis length_append)
        then show ?thesis using len assms(2) by simp
      qed
      ultimately show ?thesis using Some by (simp add: limited_def)
    qed
  qed
qed

lemma parseNum_valid:
  assumes v: "isValid s"
  shows "(\<exists>r. parseNum maxlen s = Inr r) \<or> parseNum maxlen s = Inl RangeError"
    and "CHR ''e'' \<notin> set s \<or> fits maxlen s \<Longrightarrow> \<exists>r. parseNum maxlen s = Inr r"
proof -
  define mantissa where "mantissa = substring s 0 (indexOf s CHR ''e'')"
  define exponent where "exponent = Number_of_string (substring_from s (indexOf s CHR ''e'' + 1))"
  define prec where "prec = (if indexOf mantissa CHR ''.'' = - 1 then 0
                       else int (length (substring_from mantissa (indexOf mantissa CHR ''.'' + 1))))"
  define num where "num = concat (split CHR ''.'' mantissa)"
  define X where "X = (case exponent of
                     Some e \<Rightarrow>
                       if e > prec then pad maxlen mantissa (e - prec) ''0'' False
                       else decimate maxlen num (Some (prec - e))
                   | None \<Rightarrow> decimate maxlen num None)"
  define inner where "inner =
          (if indexOf s CHR ''e'' > - 1 then bindE X (\<lambda>num'. Inr (split CHR ''.'' num'))
           else Inr (split CHR ''.'' s))"
  define parts :: "string list \<Rightarrow> error + string \<times> string" where "parts = (\<lambda>a. case a of
                 [a0] \<Rightarrow> Inr (trimZeroes a0 Start CHR ''0'', [])
               | a0 # a1 # _ \<Rightarrow> Inr (trimZeroes a0 Start CHR ''0'', trimZeroes a1 End CHR ''0'')
               | [] \<Rightarrow> Inr ([], []))"
  have p: "parseNum maxlen s = bindE inner parts"
    using v
    unfolding parseNum_def inner_def X_def num_def prec_def exponent_def mantissa_def parts_def
      Let_def
    by (simp only: not_True_eq_False if_False)
  have parts_ok: "\<exists>r. parts a = Inr r" for a
    unfolding parts_def by (cases a rule: list.exhaust; cases "tl a") auto
  have lm: "length mantissa \<le> length s"
    by (simp add: mantissa_def length_substring_le)
  have ln: "length num \<le> length s"
    using length_join_split [of "CHR ''.''" mantissa] lm by (simp add: num_def)
  have pr: "0 \<le> prec" "prec \<le> int (length s)"
    using length_substring_from_le [of mantissa "indexOf mantissa CHR ''.'' + 1"] lm
    by (simp_all add: prec_def)
  have Xc: "(\<exists>n. X = Inr n) \<or> X = Inl RangeError"
  proof (cases exponent)
    case None
    then show ?thesis
      using decimate_cases [where index = None and maxlen = maxlen and a = num]
      by (simp add: X_def)
  next
    case (Some e)
    show ?thesis
    proof (cases "e > prec")
      case True
      with Some show ?thesis by (simp add: X_def pad_zero)
    next
      case False
      then have "case Some (prec - e) of None \<Rightarrow> True | Some k \<Rightarrow> 0 \<le> k" by simp
      from decimate_cases [OF this, where maxlen = maxlen and a = num] Some False
      show ?thesis by (simp add: X_def)
    qed
  qed
  have ic: "(\<exists>a. inner = Inr a) \<or> inner = Inl RangeError"
    using Xc by (auto simp: inner_def bindE_def)
  show "(\<exists>r. parseNum maxlen s = Inr r) \<or> parseNum maxlen s = Inl RangeError"
    using ic parts_ok by (auto simp: p bindE_def)
  show "\<exists>r. parseNum maxlen s = Inr r" if h: "CHR ''e'' \<notin> set s \<or> fits maxlen s"
  proof -
    have "\<exists>a. inner = Inr a"
    proof (cases "indexOf s CHR ''e'' > - 1")
      case False
      then show ?thesis by (simp add: inner_def)
    next
      case True
      then have "CHR ''e'' \<in> set s" using indexOf_notin [of "CHR ''e''" s] by auto
      with h have "fits maxlen s" by simp
      then have f: "int (length s) + (case exponent of None \<Rightarrow> 0 | Some e \<Rightarrow> \<bar>e\<bar>) + 3 \<le> int maxlen"
        by (simp add: fits_def exponent_of_def exponent_def)
      have "\<exists>n. X = Inr n"
      proof (cases exponent)
        case None
        with f have "length num + 1 \<le> maxlen" using ln by simp
        from decimate_fits [where index = None and maxlen = maxlen and a = num, OF _ this] None
        show ?thesis by (simp add: X_def)
      next
        case (Some e)
        with f have fe: "int (length s) + \<bar>e\<bar> + 3 \<le> int maxlen" by simp
        show ?thesis
        proof (cases "e > prec")
          case True
          then have "length mantissa + nat (e - prec) \<le> maxlen" using fe lm pr by simp
          with Some True show ?thesis by (simp add: X_def pad_zero)
        next
          case False
          have a: "case Some (prec - e) of None \<Rightarrow> True
                   | Some k \<Rightarrow> 0 \<le> k \<and> k + 3 \<le> int maxlen"
            using False fe pr by simp
          have b: "length num + 1 \<le> maxlen" using fe ln by simp
          from decimate_fits [OF a b] Some False show ?thesis by (simp add: X_def)
        qed
      qed
      with True show ?thesis by (auto simp: inner_def bindE_def)
    qed
    then show ?thesis using parts_ok by (auto simp: p bindE_def)
  qed
qed

lemma parseNum_invalid: "\<not> isValid s \<Longrightarrow> parseNum maxlen s = Inl IllegalNumberFormat"
  by (simp add: parseNum_def)

lemma parseNum_format_error: "(parseNum maxlen s = Inl IllegalNumberFormat) = (\<not> isValid s)"
  using parseNum_valid(1) [of s maxlen] parseNum_invalid [of s maxlen] by auto

lemma plus_after_point_append: "plus_after_point (a @ CHR ''.'' # CHR ''+'' # b)"
proof (induction a)
  case Nil
  show ?case by simp
next
  case (Cons x xs)
  then show ?case by (cases xs) simp_all
qed

lemma strict_imp_literal: "strict_form s \<Longrightarrow> literal_form s"
proof -
  assume "strict_form s"
  then obtain sg ip fr ex where s: "s = sg @ ip @ fr @ ex"
    and sg: "sg = [] \<or> sg = ''+'' \<or> sg = ''-''" and ip: "all_digits ip"
    and fr: "fr = [] \<or> (\<exists>fd. fr = ''.'' @ fd \<and> all_digits fd)"
    and ex: "ex = [] \<or> (\<exists>es ed. ex = ''e'' @ es @ ed \<and> (es = [] \<or> es = ''+'' \<or> es = ''-'')
                                   \<and> all_digits ed)"
    unfolding strict_form_def by (elim exE conjE)
  have "fr = [] \<or> (\<exists>pl fd. fr = ''.'' @ pl @ fd \<and> (pl = [] \<or> pl = ''+'') \<and> all_digits fd)"
    using fr
  proof
    assume "fr = []"
    then show ?thesis ..
  next
    assume "\<exists>fd. fr = ''.'' @ fd \<and> all_digits fd"
    then obtain fd where "fr = ''.'' @ [] @ fd" "all_digits fd" by auto
    then have "\<exists>pl fd'. fr = ''.'' @ pl @ fd' \<and> (pl = [] \<or> pl = ''+'') \<and> all_digits fd'"
      by (intro exI [of _ "[]"] exI [of _ fd] conjI) simp_all
    then show ?thesis ..
  qed
  with s sg ip show ?thesis using ex by (rule literal_formI)
qed

lemma literal_imp_strict:
  assumes "literal_form s" "\<not> plus_after_point s"
  shows "strict_form s"
proof -
  from assms(1) obtain sg ip fr ex where s: "s = sg @ ip @ fr @ ex"
    and sg: "sg = [] \<or> sg = ''+'' \<or> sg = ''-''" and ip: "all_digits ip"
    and fr: "fr = [] \<or> (\<exists>pl fd. fr = ''.'' @ pl @ fd \<and> (pl = [] \<or> pl = ''+'') \<and> all_digits fd)"
    and ex: "ex = [] \<or> (\<exists>es ed. ex = ''e'' @ es @ ed \<and> (es = [] \<or> es = ''+'' \<or> es = ''-'')
                                   \<and> all_digits ed)"
    unfolding literal_form_def by (elim exE conjE)
  have fr': "fr = [] \<or> (\<exists>fd. fr = ''.'' @ fd \<and> all_digits fd)"
    using fr
  proof
    assume "fr = []"
    then show ?thesis ..
  next
    assume "\<exists>pl fd. fr = ''.'' @ pl @ fd \<and> (pl = [] \<or> pl = ''+'') \<and> all_digits fd"
    then obtain pl fd where f: "fr = ''.'' @ pl @ fd" "pl = [] \<or> pl = ''+''" "all_digits fd"
      by (elim exE conjE)
    from f(2) have "pl = []"
    proof
      assume "pl = []"
      then show ?thesis .
    next
      assume "pl = ''+''"
      with s f(1) have "s = (sg @ ip) @ CHR ''.'' # CHR ''+'' # (fd @ ex)" by simp
      then have "plus_after_point s" by (simp only: plus_after_point_append)
      with assms(2) show ?thesis by simp
    qed
    with f have "fr = ''.'' @ fd \<and> all_digits fd" by simp
    then have "\<exists>fd. fr = ''.'' @ fd \<and> all_digits fd" ..
    then show ?thesis ..
  qed
  show ?thesis
    unfolding strict_form_def
    using s sg ip fr' ex by (intro exI [of _ sg] exI [of _ ip] exI [of _ fr] exI [of _ ex] conjI)
qed

text \<open>
  C7 as stated fails: \<open>"1e2.5"\<close> has one decimal point, one exponent marker and no other
  character than digits, so it is free of the three defects; \<open>parseNum\<close> rejects it,
  because \<open>isValid\<close> asks the exponent to pass \<open>isInteger\<close>.
\<close>

theorem parseNum_point_in_exponent_counterexample:
  "\<not> spec_format_defect ''1e2.5'' \<and> parseNum 536870888 ''1e2.5'' = Inl IllegalNumberFormat"
proof -
  have "\<not> spec_illegal_char ''1e2.5''"
    unfolding spec_illegal_char_def
    by (auto simp: is_digit_def less_Suc_eq numeral_eq_Suc nth_Cons')
  moreover have "\<not> isValid ''1e2.5''"
    by (simp add: isValid_def isDecimal_def isInteger_def js_eval_defs is_digit_def)
  ultimately show ?thesis
    by (simp add: spec_format_defect_def parseNum_invalid)
qed

text \<open>
  A slip of the format check: \<open>isDecimal\<close> checks the fraction with
  \<open>isInteger(parts[1], true)\<close>, which is there to refuse a sign in the fraction and
  refuses a \<open>-\<close>, yet lets a \<open>+\<close> through, so \<open>"1.+5"\<close> is parsed to the parts
  \<open>"1"\<close> and \<open>"+5"\<close>. The statement below leaves such literals aside.
\<close>

lemma parseNum_plus_in_fraction:
  "spec_format_defect ''1.+5'' \<and> parseNum 536870888 ''1.+5'' = Inr (''1'', ''+5'')
   \<and> parseNum 536870888 ''1.-5'' = Inl IllegalNumberFormat"
proof -
  have "spec_illegal_char ''1.+5''"
    unfolding spec_illegal_char_def by (rule exI [of _ 2]) (simp add: is_digit_def)
  moreover have "parseNum 536870888 ''1.+5'' = Inr (''1'', ''+5'')"
    by (simp add: parseNum_def isValid_def isDecimal_def isInteger_def trimZeroes_def
        trimStart_def trimEnd_def js_eval_defs)
  moreover have "parseNum 536870888 ''1.-5'' = Inl IllegalNumberFormat"
    by (simp add: parseNum_def isValid_def isDecimal_def isInteger_def js_eval_defs)
  ultimately show ?thesis by (simp add: spec_format_defect_def)
qed

text \<open>
  C7, amended. For a literal in which no \<open>+\<close> directly follows a decimal point,
  \<open>parseNum\<close> fails with the format error exactly when the literal is not of the form:
  optional sign, digits, optionally a point and digits, optionally \<open>e\<close> with an optional
  sign and digits (each run of digits possibly empty). A literal of that form raises no
  error but, possibly, the \<open>RangeError\<close> of a string beyond the length limit; it is
  accepted whenever it has no exponent marker or its length and the magnitude of its
  exponent stay three characters below the limit.
\<close>

theorem parseNum_format_error_iff:
  assumes "\<not> plus_after_point s"
  shows "(parseNum maxlen s = Inl IllegalNumberFormat) = (\<not> strict_form s)
         \<and> (strict_form s \<longrightarrow>
              (\<exists>r. parseNum maxlen s = Inr r) \<or> parseNum maxlen s = Inl RangeError)
         \<and> (strict_form s \<and> (CHR ''e'' \<notin> set s \<or> fits maxlen s) \<longrightarrow>
              (\<exists>r. parseNum maxlen s = Inr r))"
proof -
  have eq: "isValid s = strict_form s"
    using assms strict_imp_literal [of s] literal_imp_strict [of s]
    by (auto simp: isValid_form)
  show ?thesis
    using parseNum_valid [of s maxlen] parseNum_format_error [of maxlen s]
    by (auto simp: eq [symmetric])
qed

theorem parseNum_format_error_iff_witness:
  "\<not> plus_after_point ''-12.5e1'' \<and> strict_form ''-12.5e1'' \<and> fits 536870888 ''-12.5e1''
   \<and> parseNum 536870888 ''-12.5e1'' = Inr (''-125'', [])
   \<and> \<not> plus_after_point ''1.2.3'' \<and> \<not> strict_form ''1.2.3''
   \<and> parseNum 536870888 ''1.2.3'' = Inl IllegalNumberFormat"
proof -
  have n1: "\<not> plus_after_point ''-12.5e1''" by simp
  have n2: "\<not> plus_after_point ''1.2.3''" by simp
  have a: "parseNum 536870888 ''-12.5e1'' = Inr (''-125'', [])"
    by (simp add: parseNum_def isValid_def isDecimal_def isInteger_def trimZeroes_def
        trimStart_def trimEnd_def Number_of_string_def decimate_def pad_def limited_def
        js_eval_defs)
  have b: "parseNum 536870888 ''1.2.3'' = Inl IllegalNumberFormat"
    by (simp add: parseNum_def isValid_def isDecimal_def isInteger_def js_eval_defs)
  have f: "fits 536870888 ''-12.5e1''"
    by (simp add: fits_def exponent_of_def Number_of_string_def js_eval_defs)
  from a parseNum_format_error_iff [OF n1, of 536870888] have s1: "strict_form ''-12.5e1''"
    by auto
  from b parseNum_format_error_iff [OF n2, of 536870888] have s2: "\<not> strict_form ''1.2.3''"
    by auto
  from n1 n2 a b f s1 s2 show ?thesis by blast
qed

section \<open>The Cayley-Dickson product on basis elements\<close>

lemma length_zero [simp]: "length (Hyper_zero n) = 2 ^ n"
  by (simp add: Hyper_zero_def)

lemma conj_zero [simp]: "Hyper_conj (Hyper_zero n) = Hyper_zero n"
  by (cases "(2::nat) ^ n") (auto simp: Hyper_conj_def Hyper_zero_def)

lemma add_zero [simp]: "Hyper_add (replicate k 0) (replicate k 0) = replicate k 0"
  by (induction k) auto

lemma sub_zero [simp]: "Hyper_sub (replicate k 0) (replicate k 0) = replicate k 0"
  by (induction k) auto

lemma sub_zero_right: "Hyper_sub xs (replicate (length xs) 0) = xs"
  by (induction xs) auto

lemma sub_zero_left: "Hyper_sub (replicate (length xs) 0) xs = map uminus xs"
  by (induction xs) auto

lemma take_zero [simp]: "take (2 ^ n) (Hyper_zero (Suc n)) = Hyper_zero n"
  by (simp add: Hyper_zero_def)

lemma drop_zero [simp]: "drop (2 ^ n) (Hyper_zero (Suc n)) = Hyper_zero n"
  by (simp add: Hyper_zero_def)

lemma zero_Suc: "Hyper_zero (Suc n) = Hyper_zero n @ Hyper_zero n"
  by (simp add: Hyper_zero_def replicate_add [symmetric])

lemma length_conj [simp]: "length (Hyper_conj a) = length a"
  by (cases a) (auto simp: Hyper_conj_def)

lemma half_lengths:
  "length b = 2 ^ Suc n \<Longrightarrow> length (take (2 ^ n) b) = 2 ^ n \<and> length (drop (2 ^ n) b) = 2 ^ n"
  by auto

lemma mul_zero_left: "length b = 2 ^ n \<Longrightarrow> Hyper_mul n (Hyper_zero n) b = Hyper_zero n"
  and mul_zero_right: "length b = 2 ^ n \<Longrightarrow> Hyper_mul n b (Hyper_zero n) = Hyper_zero n"
proof (induction n arbitrary: b)
  case 0
  { case 1 then show ?case by (cases b) (auto simp: Hyper_zero_def) }
  { case 2 then show ?case by (cases b) (auto simp: Hyper_zero_def) }
next
  case (Suc n)
  { case 1
    from half_lengths [OF 1] show ?case
      by (simp add: Suc.IH Let_def) (simp add: Hyper_zero_def replicate_add [symmetric]) }
  { case 2
    from half_lengths [OF 2] show ?case
      by (simp add: Suc.IH Let_def) (simp add: Hyper_zero_def replicate_add [symmetric]) }
qed

lemma length_add [simp]: "length xs = length ys \<Longrightarrow> length (Hyper_add xs ys) = length ys"
  by (induction xs ys rule: Hyper_add.induct) auto

lemma length_sub [simp]: "length xs = length ys \<Longrightarrow> length (Hyper_sub xs ys) = length ys"
  by (induction xs ys rule: Hyper_sub.induct) auto

lemma length_mul: "length a = 2 ^ n \<Longrightarrow> length b = 2 ^ n \<Longrightarrow> length (Hyper_mul n a b) = 2 ^ n"
proof (induction n arbitrary: a b)
  case 0
  then show ?case by (cases a; cases b) auto
next
  case (Suc n)
  from half_lengths [OF Suc.prems(1)] half_lengths [OF Suc.prems(2)] show ?case
    by (simp add: Let_def Suc.IH)
qed

lemma add_neg: "length xs = length ys \<Longrightarrow>
  Hyper_add (map uminus xs) (map uminus ys) = map uminus (Hyper_add xs ys)"
  by (induction xs ys rule: Hyper_add.induct) auto

lemma sub_neg: "length xs = length ys \<Longrightarrow>
  Hyper_sub (map uminus xs) (map uminus ys) = map uminus (Hyper_sub xs ys)"
  by (induction xs ys rule: Hyper_sub.induct) auto

lemma conj_neg: "Hyper_conj (map uminus a) = map uminus (Hyper_conj a)"
  by (cases a) (auto simp: Hyper_conj_def)

lemma mul_neg_left:
  "length a = 2 ^ n \<Longrightarrow> length b = 2 ^ n \<Longrightarrow>
     Hyper_mul n (map uminus a) b = map uminus (Hyper_mul n a b)"
  and mul_neg_right:
  "length a = 2 ^ n \<Longrightarrow> length b = 2 ^ n \<Longrightarrow>
     Hyper_mul n a (map uminus b) = map uminus (Hyper_mul n a b)"
proof (induction n arbitrary: a b)
  case 0
  { case 1 then show ?case by (cases a; cases b) auto }
  { case 2 then show ?case by (cases a; cases b) auto }
next
  case (Suc n)
  { case 1
    from half_lengths [OF 1(1)] half_lengths [OF 1(2)] show ?case
      by (simp add: Let_def Suc.IH take_map drop_map length_mul sub_neg add_neg) }
  { case 2
    from half_lengths [OF 2(1)] half_lengths [OF 2(2)] show ?case
      by (simp add: Let_def Suc.IH take_map drop_map length_mul sub_neg add_neg conj_neg) }
qed

lemma unit_Suc_low:
  "i < 2 ^ n \<Longrightarrow> take (2 ^ n) (Hyper_unit (Suc n) i) = Hyper_unit n i
     \<and> drop (2 ^ n) (Hyper_unit (Suc n) i) = Hyper_zero n"
  by (simp add: Hyper_unit_def take_update_swap drop_update_cancel)

lemma unit_Suc_high:
  "2 ^ n \<le> i \<Longrightarrow> take (2 ^ n) (Hyper_unit (Suc n) i) = Hyper_zero n
     \<and> drop (2 ^ n) (Hyper_unit (Suc n) i) = Hyper_unit n (i - 2 ^ n)"
  by (simp add: Hyper_unit_def take_update_cancel drop_update_swap)

lemma length_unit [simp]: "length (Hyper_unit n i) = 2 ^ n"
  by (simp add: Hyper_unit_def)

lemma add_zero_zero: "Hyper_add (Hyper_zero n) (Hyper_zero n) = Hyper_zero n"
  by (simp add: Hyper_zero_def)

lemma sub_zero_r: "length xs = 2 ^ n \<Longrightarrow> Hyper_sub xs (Hyper_zero n) = xs"
  using sub_zero_right [of xs] by (simp add: Hyper_zero_def)

lemma sub_zero_l: "length xs = 2 ^ n \<Longrightarrow> Hyper_sub (Hyper_zero n) xs = map uminus xs"
  using sub_zero_left [of xs] by (simp add: Hyper_zero_def)

lemma unit0_Suc: "Hyper_unit (Suc n) 0 = Hyper_unit n 0 @ Hyper_zero n"
  by (simp add: Hyper_unit_def zero_Suc list_update_append)

lemma unit0_sq: "Hyper_mul n (Hyper_unit n 0) (Hyper_unit n 0) = Hyper_unit n 0"
proof (induction n)
  case 0
  show ?case by (simp add: Hyper_unit_def Hyper_zero_def)
next
  case (Suc n)
  have "(0::nat) < 2 ^ n" by simp
  note u = unit_Suc_low [OF this]
  show ?case
    by (simp add: u Let_def Suc.IH mul_zero_left mul_zero_right sub_zero_r add_zero_zero unit0_Suc)
qed

lemma conj_unit0: "Hyper_conj (Hyper_unit n 0) = Hyper_unit n 0"
  by (cases "(2::nat) ^ n") (auto simp: Hyper_conj_def Hyper_unit_def Hyper_zero_def)

lemma conj_unit: "0 < i \<Longrightarrow> Hyper_conj (Hyper_unit n i) = map uminus (Hyper_unit n i)"
  by (cases "(2::nat) ^ n"; cases i) (auto simp: Hyper_conj_def Hyper_unit_def Hyper_zero_def)

lemma neg_neg: "map uminus (map uminus (xs :: 'a::comm_ring_1 list)) = xs"
  by (induction xs) auto

lemma neg_zero: "map uminus (Hyper_zero n :: 'a::comm_ring_1 list) = Hyper_zero n"
  by (simp add: Hyper_zero_def)

lemma unit_sq:
  "0 < i \<Longrightarrow> i < 2 ^ n \<Longrightarrow>
     Hyper_mul n (Hyper_unit n i) (Hyper_unit n i)
       = map uminus (Hyper_unit n 0 :: 'a::comm_ring_1 list)"
proof (induction n arbitrary: i)
  case 0
  then show ?case by simp
next
  case (Suc n)
  show ?case
  proof (cases "i < 2 ^ n")
    case True
    note u = unit_Suc_low [OF True]
    note ih = Suc.IH [OF Suc.prems(1) True]
    show ?thesis
      by (simp add: u ih Let_def mul_zero_left mul_zero_right sub_zero_r add_zero_zero
          unit0_Suc neg_zero)
  next
    case False
    then have hi: "2 ^ n \<le> i" by simp
    define j where "j = i - 2 ^ n"
    have j: "j < 2 ^ n" using Suc.prems hi by (simp add: j_def)
    have cv: "Hyper_mul n (Hyper_conj (Hyper_unit n j)) (Hyper_unit n j)
                = (Hyper_unit n 0 :: 'a list)"
    proof (cases "j = 0")
      case True
      then show ?thesis by (simp add: conj_unit0 unit0_sq)
    next
      case False
      then have "0 < j" by simp
      note ih = Suc.IH [OF this j]
      from \<open>0 < j\<close> show ?thesis
        by (simp add: ih conj_unit mul_neg_left neg_neg)
    qed
    note u = unit_Suc_high [OF hi, folded j_def]
    show ?thesis
      by (simp add: u cv Let_def mul_zero_left mul_zero_right sub_zero_l
          add_zero_zero unit0_Suc neg_zero)
  qed
qed

lemma neg_unit0: "map uminus (Hyper_unit n 0) = (Hyper_real n (- 1) :: 'a::comm_ring_1 list)"
  by (cases "(2::nat) ^ n") (auto simp: Hyper_unit_def Hyper_real_def Hyper_zero_def)

lemma mul_test_3_reals: "Hyper_mul 2 [0, 1, 2, 0] [0, 2, 1, 0] = [- 4, 0, 0, - 3 :: int]"
  by (simp add: numeral_2_eq_2 Hyper_conj_def)

text \<open>
  C9. In every dimension \<open>2 ^ n\<close> and for every index \<open>i\<close> with \<open>1 \<le> i < 2 ^ n\<close>,
  the HyperNumber with 1 in component \<open>i\<close> and 0 elsewhere, multiplied by itself with
  the Cayley-Dickson product, is the real HyperNumber \<open>-1\<close>: component 0 is \<open>-1\<close>, all
  others are 0.
\<close>

theorem basis_element_square:
  "1 \<le> i \<Longrightarrow> i < 2 ^ n \<Longrightarrow>
     Hyper_mul n (Hyper_unit n i) (Hyper_unit n i) = (Hyper_real n (- 1) :: 'a::comm_ring_1 list)"
  by (simp add: unit_sq neg_unit0)

theorem basis_element_square_witness:
  "(1::nat) \<le> 5 \<and> (5::nat) < 2 ^ 3
   \<and> Hyper_mul 3 (Hyper_unit 3 5) (Hyper_unit 3 5) = (Hyper_real 3 (- 1) :: rat list)
   \<and> Hyper_unit 3 5 = [0, 0, 0, 0, 0, 1, 0, 0 :: rat]
   \<and> Hyper_real 3 (- 1) = [- 1, 0, 0, 0, 0, 0, 0, 0 :: rat]"
proof -
  have u: "Hyper_unit 3 5 = [0, 0, 0, 0, 0, 1, 0, 0 :: rat]"
    by (simp add: Hyper_unit_def Hyper_zero_def eval_nat_numeral)
  have r: "Hyper_real 3 (- 1) = [- 1, 0, 0, 0, 0, 0, 0, 0 :: rat]"
    by (simp add: Hyper_real_def Hyper_zero_def eval_nat_numeral)
  have "Hyper_mul 3 (Hyper_unit 3 5) (Hyper_unit 3 5) = (Hyper_real 3 (- 1) :: rat list)"
    using basis_element_square [of 5 3, where 'a = rat] by simp
  with u r show ?thesis by simp
qed

section \<open>Decimal text of integers\<close>

lemma digit_cases:
  assumes "d < (10::nat)"
  obtains "d = 0" | "d = 1" | "d = 2" | "d = 3" | "d = 4" | "d = 5" | "d = 6" | "d = 7"
    | "d = 8" | "d = 9"
  using assms by atomize_elim arith

lemma digit_char_props:
  assumes "d < 10"
  shows "is_digit (digit_char d)" and "digit_val (digit_char d) = d"
    and "(digit_char d = CHR ''0'') = (d = 0)"
  using assms by (cases d rule: digit_cases; simp add: is_digit_def digit_val_def digit_char_def)+

lemma is_digit_not_sign: "is_digit c \<Longrightarrow> c \<noteq> CHR ''-'' \<and> c \<noteq> CHR ''+'' \<and> c \<noteq> CHR ''.''"
  by (auto simp: is_digit_def)

lemma nat_digits_all: "all_digits (nat_digits n)"
proof (induction n rule: nat_digits.induct)
  case (1 n)
  show ?case
  proof (cases "n < 10")
    case True
    then show ?thesis by (simp add: nat_digits.simps [of n] all_digits_def digit_char_props)
  next
    case False
    with 1 show ?thesis
      by (simp add: nat_digits.simps [of n] all_digits_def digit_char_props)
  qed
qed

lemma nat_digits_ne: "nat_digits n \<noteq> []"
  by (subst nat_digits.simps) simp

lemma digits_val_snoc: "digits_val (xs @ [c]) = 10 * digits_val xs + digit_val c"
  by (simp add: digits_val_def)

lemma digits_val_nat_digits: "digits_val (nat_digits n) = n"
proof (induction n rule: nat_digits.induct)
  case (1 n)
  show ?case
  proof (cases "n < 10")
    case True
    then show ?thesis by (simp add: nat_digits.simps [of n] digits_val_def digit_char_props)
  next
    case False
    with 1 show ?thesis
      by (simp add: nat_digits.simps [of n] digits_val_snoc digit_char_props)
  qed
qed

lemma nat_digits_hd: "0 < n \<Longrightarrow> hd (nat_digits n) \<noteq> CHR ''0''"
proof (induction n rule: nat_digits.induct)
  case (1 n)
  show ?case
  proof (cases "n < 10")
    case True
    with 1(2) show ?thesis by (simp add: nat_digits.simps [of n] digit_char_props)
  next
    case False
    then have "0 < n div 10" by simp
    with 1(1) False have "hd (nat_digits (n div 10)) \<noteq> CHR ''0''" by simp
    with False show ?thesis by (simp add: nat_digits.simps [of n] nat_digits_ne)
  qed
qed

lemma or_zero_dropWhile_nat_digits: "or_zero (dropWhile is0 (nat_digits n)) = nat_digits n"
proof (cases "n = 0")
  case True
  then show ?thesis by (simp add: nat_digits_0 or_zero_def is0_def)
next
  case False
  then have "hd (nat_digits n) \<noteq> CHR ''0''" by (simp add: nat_digits_hd)
  then have "dropWhile is0 (nat_digits n) = nat_digits n"
    using nat_digits_ne [of n] by (cases "nat_digits n") (auto simp: is0_def)
  then show ?thesis by (simp add: or_zero_def nat_digits_ne)
qed

lemma or_zero_dropWhile_toString: "or_zero (dropWhile is0 (BigInt_toString k)) = BigInt_toString k"
  by (simp add: BigInt_toString_def or_zero_dropWhile_nat_digits) (simp add: or_zero_def is0_def)

lemma toString_no_point: "CHR ''.'' \<notin> set (BigInt_toString k)"
  using nat_digits_all [of "nat k"] nat_digits_all [of "nat (- k)"]
  by (auto simp: BigInt_toString_def all_digits_def list_all_iff dest: is_digit_not_sign)

lemma all_digits_append [simp]: "all_digits (xs @ ys) = (all_digits xs \<and> all_digits ys)"
  by (simp add: all_digits_def)

lemma is_digit_not_space: "is_digit c \<Longrightarrow> \<not> is_space c"
  by (auto simp: is_digit_def is_space_def)

lemma dropWhile_hd: "s \<noteq> [] \<Longrightarrow> \<not> P (hd s) \<Longrightarrow> dropWhile P s = s"
  by (cases s) auto

lemma trim_id: "s \<noteq> [] \<Longrightarrow> \<not> is_space (hd s) \<Longrightarrow> \<not> is_space (last s) \<Longrightarrow> trim s = s"
  by (simp add: trim_def dropWhile_hd hd_rev)

lemma trim_digits: "all_digits s \<Longrightarrow> trim s = s"
proof (cases "s = []")
  case True
  then show ?thesis by (simp add: trim_def)
next
  case False
  assume "all_digits s"
  with False have "is_digit (hd s)" "is_digit (last s)"
    by (simp_all add: all_digits_def list_all_iff)
  with False show ?thesis by (simp add: trim_id is_digit_not_space)
qed

lemma digits_no_radix_prefix:
  assumes "all_digits s"
  shows "take 2 s \<noteq> ''0x''" "take 2 s \<noteq> ''0X''" "take 2 s \<noteq> ''0o''" "take 2 s \<noteq> ''0O''"
    "take 2 s \<noteq> ''0b''" "take 2 s \<noteq> ''0B''"
proof -
  have "\<not> is_digit CHR ''x''" "\<not> is_digit CHR ''X''" "\<not> is_digit CHR ''o''"
    "\<not> is_digit CHR ''O''" "\<not> is_digit CHR ''b''" "\<not> is_digit CHR ''B''"
    by (simp_all add: is_digit_def)
  moreover have "is_digit c" if "take 2 s = [d, c]" for d c
  proof -
    from that have "c \<in> set (take 2 s)" by simp
    then have "c \<in> set s" by (rule in_set_takeD)
    with assms show ?thesis by (simp add: all_digits_def list_all_iff)
  qed
  ultimately show "take 2 s \<noteq> ''0x''" "take 2 s \<noteq> ''0X''" "take 2 s \<noteq> ''0o''"
    "take 2 s \<noteq> ''0O''" "take 2 s \<noteq> ''0b''" "take 2 s \<noteq> ''0B''"
    by blast+
qed

lemma of_string_digits:
  "all_digits s \<Longrightarrow> BigInt_of_string s = Inr (int (digits_val s))"
proof -
  assume d: "all_digits s"
  note np = digits_no_radix_prefix [OF d]
  have e: "BigInt_of_string s =
        (case s of
           [] \<Rightarrow> Inr 0
         | c # cs \<Rightarrow>
             if c = CHR ''-'' then
               (if cs \<noteq> [] \<and> all_digits cs then Inr (- int (digits_val cs))
                else Inl SyntaxError)
             else if c = CHR ''+'' then
               (if cs \<noteq> [] \<and> all_digits cs then Inr (int (digits_val cs))
                else Inl SyntaxError)
             else if all_digits s then Inr (int (digits_val s))
             else Inl SyntaxError)"
    by (simp add: BigInt_of_string_def trim_digits [OF d] Let_def np)
  show ?thesis
  proof (cases s)
    case Nil
    then show ?thesis using e by (simp add: digits_val_def)
  next
    case (Cons c cs)
    with d have "is_digit c" by (simp add: all_digits_def)
    then have "c \<noteq> CHR ''-''" "c \<noteq> CHR ''+''" by (auto dest: is_digit_not_sign)
    with d Cons show ?thesis using e by simp
  qed
qed

lemma of_string_neg:
  "all_digits s \<Longrightarrow> s \<noteq> [] \<Longrightarrow> BigInt_of_string (CHR ''-'' # s) = Inr (- int (digits_val s))"
proof -
  assume d: "all_digits s" and ne: "s \<noteq> []"
  from d ne have "is_digit (last s)" by (simp add: all_digits_def list_all_iff)
  then have "\<not> is_space (last (CHR ''-'' # s))" using ne by (simp add: is_digit_not_space)
  moreover have "\<not> is_space (hd (CHR ''-'' # s))" by (simp add: is_space_def)
  ultimately have t: "trim (CHR ''-'' # s) = CHR ''-'' # s" by (intro trim_id) simp_all
  show ?thesis using d ne by (simp add: BigInt_of_string_def t Let_def)
qed

lemma of_string_toString_0: "BigInt_of_string (BigInt_toString k @ ''0'') = Inr (10 * k)"
proof (cases "k < 0")
  case True
  then show ?thesis
    using nat_digits_all [of "nat (- k)"]
    by (simp add: BigInt_toString_def of_string_neg digits_val_snoc digits_val_nat_digits
        all_digits_def is_digit_def digit_val_def)
next
  case False
  then show ?thesis
    using nat_digits_all [of "nat k"]
    by (simp add: BigInt_toString_def of_string_digits digits_val_snoc digits_val_nat_digits
        all_digits_def is_digit_def digit_val_def)
qed

lemma substring_0: "substring r 0 i = take (nat i) r"
  by (auto simp: substring_def Let_def min_def max_def)

lemma substring_from_drop: "substring_from r i = drop (nat i) r"
  by (auto simp: substring_from_def substring_def Let_def min_def max_def)

lemma new_point:
  "CHR ''.'' \<notin> set A \<Longrightarrow> CHR ''.'' \<notin> set B \<Longrightarrow>
     BigNum_new (A @ CHR ''.'' # B)
       = Inr \<lparr>integer = or_zero (dropWhile is0 A),
              decimal = or_zero (rev (dropWhile is0 (rev B)))\<rparr>"
  by (simp add: BigNum_new_def split_first split_none)

section \<open>Rounding twice\<close>

lemma sdiv_10: "(10 * k) sdiv 10 = (k::int)"
  by (simp add: signed_divide_int_def abs_mult sgn_mult mult_sgn_abs)

lemma smod_10: "(10 * k) smod 10 = (0::int)"
  by (simp add: signed_modulo_int_def abs_mult)

lemma round_switch_exact: "round_switch m k 0 5 = Inr k"
  by (cases m) (simp_all add: round_switch_def)

lemma or_zero_length: "length (or_zero s) = max 1 (length s)"
  by (cases s) (auto simp: or_zero_def)

lemma trimmed_length: "length (rev (dropWhile P (rev B))) \<le> length B"
  using length_dropWhile_le [of P "rev B"] by simp

lemma round_again:
  assumes y: "BigNum_new (substring r 0 i @ ''.'' @ substring_from r i) = Inr y"
    and r: "r = BigInt_toString k"
    and i: "i = int (length r) - int (precision c)"
  shows "BigNum_round y c = Inr y"
proof (cases "precision c = 0")
  case True
  with i have "substring r 0 i = r" "substring_from r i = []"
    by (simp_all add: substring_0 substring_from_drop)
  with y have new: "BigNum_new (r @ ''.'') = Inr y" by simp
  have "BigNum_new (r @ CHR ''.'' # []) = Inr \<lparr>integer = r, decimal = ''0''\<rparr>"
    using toString_no_point [of k]
    by (subst new_point) (simp_all add: r or_zero_dropWhile_toString, simp add: or_zero_def)
  with new have yv: "y = \<lparr>integer = r, decimal = ''0''\<rparr>" by simp
  have big: "BigNum_asBigInt y = Inr (10 * k)"
    by (simp add: yv BigNum_asBigInt_def r of_string_toString_0)
  have "BigNum_round y c = BigNum_new (substring r 0 (int (length r)) @ ''.''
            @ substring_from r (int (length r)))"
  proof -
    have p: "BigNum_precision y = 1" by (simp add: yv BigNum_precision_def)
    show ?thesis
      by (simp add: BigNum_round_def big p True bindE_def BigInt_pow10_exact BigInt_5_pow10_exact sdiv_10 smod_10
          round_switch_exact r [symmetric] Let_def)
  qed
  also have "\<dots> = Inr y" using new by (simp add: substring_0 substring_from_drop)
  finally show ?thesis .
next
  case False
  have np: "CHR ''.'' \<notin> set (substring r 0 i)" "CHR ''.'' \<notin> set (substring_from r i)"
    using toString_no_point [of k]
    by (auto simp: r substring_0 substring_from_drop dest: in_set_takeD in_set_dropD)
  have "length (substring_from r i) \<le> precision c"
    using i by (simp add: substring_from_drop)
  then have "length (or_zero (rev (dropWhile is0 (rev (substring_from r i))))) \<le> precision c"
    using False trimmed_length [of is0 "substring_from r i"] by (simp add: or_zero_length)
  moreover have "decimal y = or_zero (rev (dropWhile is0 (rev (substring_from r i))))"
    using y by (auto simp: new_point [OF np])
  ultimately show ?thesis by (simp add: BigNum_round_def BigNum_precision_def)
qed

lemma round_result:
  assumes "BigNum_round x c = Inr y" "\<not> BigNum_precision x \<le> precision c"
  shows "\<exists>k. BigNum_new (substring (BigInt_toString k) 0
                 (int (length (BigInt_toString k)) - int (precision c)) @ ''.''
               @ substring_from (BigInt_toString k)
                 (int (length (BigInt_toString k)) - int (precision c))) = Inr y"
  using assms
  by (auto simp: BigNum_round_def bindE_def Let_def split: sum.splits)

text \<open>
  C10. Rounding twice with the same context is rounding once: a failure of the first
  rounding is the result, and the number the first rounding returns is returned unchanged
  by the second. In particular a number that stores at most \<open>precision c\<close> fractional
  digits is returned as it is.
\<close>

theorem round_idempotent:
  "bindE (BigNum_round x c) (\<lambda>y. BigNum_round y c) = BigNum_round x c
   \<and> (BigNum_precision x \<le> precision c \<longrightarrow> BigNum_round x c = Inr x)"
proof -
  have unchanged: "BigNum_round x c = Inr x" if "BigNum_precision x \<le> precision c"
    using that by (simp add: BigNum_round_def)
  have "bindE (BigNum_round x c) (\<lambda>y. BigNum_round y c) = BigNum_round x c"
  proof (cases "BigNum_round x c")
    case (Inl e)
    then show ?thesis by (simp add: bindE_def)
  next
    case (Inr y)
    have "BigNum_round y c = Inr y"
    proof (cases "BigNum_precision x \<le> precision c")
      case True
      with unchanged Inr show ?thesis by simp
    next
      case False
      from round_result [OF Inr False] obtain k where
        "BigNum_new (substring (BigInt_toString k) 0
                 (int (length (BigInt_toString k)) - int (precision c)) @ ''.''
               @ substring_from (BigInt_toString k)
                 (int (length (BigInt_toString k)) - int (precision c))) = Inr y" by blast
      then show ?thesis by (rule round_again) simp_all
    qed
    with Inr show ?thesis by (simp add: bindE_def)
  qed
  with unchanged show ?thesis by simp
qed

theorem round_idempotent_witness:
  "BigNum_precision \<lparr>integer = ''2'', decimal = ''5''\<rparr>
     \<le> precision \<lparr>precision = 3, rounding = HALF_EVEN\<rparr>
   \<and> BigNum_round \<lparr>integer = ''2'', decimal = ''5''\<rparr> \<lparr>precision = 3, rounding = HALF_EVEN\<rparr>
       = Inr \<lparr>integer = ''2'', decimal = ''5''\<rparr>
   \<and> BigNum_round \<lparr>integer = ''2'', decimal = ''5''\<rparr> \<lparr>precision = 0, rounding = HALF_EVEN\<rparr>
       = Inr \<lparr>integer = ''2'', decimal = ''0''\<rparr>
   \<and> bindE (BigNum_round \<lparr>integer = ''2'', decimal = ''5''\<rparr> \<lparr>precision = 0, rounding = HALF_EVEN\<rparr>)
         (\<lambda>y. BigNum_round y \<lparr>precision = 0, rounding = HALF_EVEN\<rparr>)
       = Inr \<lparr>integer = ''2'', decimal = ''0''\<rparr>"
proof -
  have p: "BigNum_precision \<lparr>integer = ''2'', decimal = ''5''\<rparr>
             \<le> precision \<lparr>precision = 3, rounding = HALF_EVEN\<rparr>"
    by (simp add: BigNum_precision_def)
  have r: "BigNum_round \<lparr>integer = ''2'', decimal = ''5''\<rparr> \<lparr>precision = 0, rounding = HALF_EVEN\<rparr>
             = Inr \<lparr>integer = ''2'', decimal = ''0''\<rparr>"
    by (simp add: round_2_5 round_switch_def BigNum_new_def BigInt_toString_def js_eval_defs)
  from p round_idempotent [of "\<lparr>integer = ''2'', decimal = ''5''\<rparr>"
      "\<lparr>precision = 3, rounding = HALF_EVEN\<rparr>"]
  have a: "BigNum_round \<lparr>integer = ''2'', decimal = ''5''\<rparr> \<lparr>precision = 3, rounding = HALF_EVEN\<rparr>
             = Inr \<lparr>integer = ''2'', decimal = ''5''\<rparr>"
    by blast
  from r round_idempotent [of "\<lparr>integer = ''2'', decimal = ''5''\<rparr>"
      "\<lparr>precision = 0, rounding = HALF_EVEN\<rparr>"]
  have b: "bindE (BigNum_round \<lparr>integer = ''2'', decimal = ''5''\<rparr> \<lparr>precision = 0, rounding = HALF_EVEN\<rparr>)
         (\<lambda>y. BigNum_round y \<lparr>precision = 0, rounding = HALF_EVEN\<rparr>)
       = Inr \<lparr>integer = ''2'', decimal = ''0''\<rparr>"
    by simp
  from p a r b show ?thesis by blast
qed

section \<open>Numbers built by the constructor\<close>

lemma all_digits_dropWhile: "all_digits s \<Longrightarrow> all_digits (dropWhile P s)"
  by (auto simp: all_digits_def list_all_iff dest: set_dropWhileD)

lemma or_zero_digits: "all_digits s \<Longrightarrow> all_digits (or_zero s)"
  by (simp add: or_zero_def all_digits_def is_digit_def)

lemma trimmed_fraction:
  assumes "all_digits fd"
  defines "d \<equiv> or_zero (rev (dropWhile is0 (rev fd)))"
  shows "d \<noteq> []" "all_digits d" "d = ''0'' \<or> last d \<noteq> CHR ''0''"
proof -
  let ?t = "rev (dropWhile is0 (rev fd))"
  show "d \<noteq> []" by (simp add: d_def or_zero_def)
  have "all_digits ?t"
    using assms(1) all_digits_dropWhile [of "rev fd" is0] by (simp add: all_digits_def)
  then show "all_digits d" unfolding d_def by (rule or_zero_digits)
  show "d = ''0'' \<or> last d \<noteq> CHR ''0''"
  proof (cases "?t = []")
    case True
    then show ?thesis by (simp add: d_def or_zero_def)
  next
    case False
    then have ne: "dropWhile is0 (rev fd) \<noteq> []" by simp
    then have "\<not> is0 (hd (dropWhile is0 (rev fd)))" by (rule hd_dropWhile)
    then have "last ?t \<noteq> CHR ''0''" using ne by (simp add: last_rev is0_def)
    with False show ?thesis by (simp add: d_def or_zero_def)
  qed
qed

lemma wf_intro:
  "all_digits I \<or> (take 1 I = ''-'' \<and> all_digits (drop 1 I)) \<Longrightarrow> D \<noteq> [] \<Longrightarrow> all_digits D \<Longrightarrow>
   D = ''0'' \<or> last D \<noteq> CHR ''0'' \<Longrightarrow> BigNum_wf \<lparr>integer = I, decimal = D\<rparr>"
  by (simp add: BigNum_wf_def)

lemma digits_no_point: "all_digits s \<Longrightarrow> CHR ''.'' \<notin> set s"
  by (induction s) (auto simp: all_digits_def is_digit_def)

lemma BigNum_new_wf:
  assumes sg: "sg = [] \<or> sg = ''-''" and ip: "all_digits ip"
    and fr: "fr = [] \<or> (\<exists>fd. fr = CHR ''.'' # fd \<and> all_digits fd)"
  shows "\<exists>x. BigNum_new (sg @ ip @ fr) = Inr x \<and> BigNum_wf x"
proof -
  define I where "I = or_zero (dropWhile is0 (sg @ ip))"
  have np: "CHR ''.'' \<notin> set (sg @ ip)"
    using sg digits_no_point [OF ip] by auto
  have int_ok: "all_digits I \<or> (take 1 I = ''-'' \<and> all_digits (drop 1 I))"
    using sg
  proof
    assume "sg = []"
    then have "all_digits I"
      unfolding I_def using ip by (simp add: all_digits_dropWhile or_zero_digits)
    then show ?thesis ..
  next
    assume s: "sg = ''-''"
    have "dropWhile is0 (CHR ''-'' # ip) = CHR ''-'' # ip" by (simp add: is0_def)
    then have "I = CHR ''-'' # ip" unfolding I_def s by (simp add: or_zero_def)
    then show ?thesis using ip by simp
  qed
  from fr show ?thesis
  proof
    assume f: "fr = []"
    have "split CHR ''.'' (sg @ ip) = [sg @ ip]" using np by (rule split_none)
    then have "BigNum_new (sg @ ip) = Inr \<lparr>integer = I, decimal = ''0''\<rparr>"
      unfolding BigNum_new_def I_def by (simp add: Let_def)
    moreover have "BigNum_wf \<lparr>integer = I, decimal = ''0''\<rparr>"
      using int_ok by (rule wf_intro) (simp_all add: all_digits_def is_digit_def)
    ultimately show ?thesis using f by simp
  next
    assume "\<exists>fd. fr = CHR ''.'' # fd \<and> all_digits fd"
    then obtain fd where fd: "fr = CHR ''.'' # fd" "all_digits fd" by blast
    then have npf: "CHR ''.'' \<notin> set fd"
      by (simp add: digits_no_point)
    define D where "D = or_zero (rev (dropWhile is0 (rev fd)))"
    have "BigNum_new ((sg @ ip) @ CHR ''.'' # fd) = Inr \<lparr>integer = I, decimal = D\<rparr>"
      unfolding I_def D_def using np npf by (rule new_point)
    moreover have "BigNum_wf \<lparr>integer = I, decimal = D\<rparr>"
      using int_ok trimmed_fraction [OF fd(2)] unfolding D_def by (rule wf_intro)
    ultimately show ?thesis using fd(1) by simp
  qed
qed

section \<open>Rounding with \<open>UNNECESSARY\<close>\<close>

lemma digit_val_zero: "is_digit c \<Longrightarrow> (digit_val c = 0) = (c = CHR ''0'')"
  by (auto simp: is_digit_def digit_val_def)

lemma digit_val_lt: "is_digit c \<Longrightarrow> digit_val c < 10"
  by (auto simp: is_digit_def digit_val_def)

lemma digits_val_last:
  "all_digits s \<Longrightarrow> s \<noteq> [] \<Longrightarrow> (10 dvd digits_val s) = (last s = CHR ''0'')"
proof (induction s rule: rev_induct)
  case Nil
  then show ?case by simp
next
  case (snoc c s)
  then have c: "is_digit c" by (simp add: all_digits_def)
  have "(10 dvd 10 * digits_val s + digit_val c) = (10 dvd digit_val c)"
    by (simp add: dvd_add_right_iff)
  also have "\<dots> = (digit_val c = 0)"
    using digit_val_lt [OF c] by (auto dest: dvd_imp_le)
  finally show ?case by (simp add: digits_val_snoc digit_val_zero [OF c])
qed

lemma wf_asBigInt:
  assumes "BigNum_wf x"
  obtains n where "BigNum_asBigInt x = Inr n" "(10 dvd n) = (last (decimal x) = CHR ''0'')"
proof -
  from assms have d: "decimal x \<noteq> []" "all_digits (decimal x)" by (simp_all add: BigNum_wf_def)
  from assms consider (pos) "all_digits (integer x)"
    | (neg) "take 1 (integer x) = ''-''" "all_digits (drop 1 (integer x))"
    by (auto simp: BigNum_wf_def)
  then show ?thesis
  proof cases
    case pos
    let ?s = "integer x @ decimal x"
    have a: "all_digits ?s" "?s \<noteq> []" using pos d by simp_all
    have "BigNum_asBigInt x = Inr (int (digits_val ?s))"
      using a by (simp add: BigNum_asBigInt_def of_string_digits)
    moreover have "(10 dvd int (digits_val ?s)) = (last (decimal x) = CHR ''0'')"
      using digits_val_last [OF a] d by (simp add: int_dvd_int_iff [symmetric] del: int_dvd_int_iff)
    ultimately show ?thesis by (rule that)
  next
    case neg
    let ?s = "drop 1 (integer x) @ decimal x"
    have i: "integer x = CHR ''-'' # drop 1 (integer x)"
      using neg(1) by (cases "integer x") auto
    have a: "all_digits ?s" "?s \<noteq> []" using neg d by simp_all
    have e: "integer x @ decimal x = CHR ''-'' # ?s" using i by (metis append_Cons)
    have "BigNum_asBigInt x = BigInt_of_string (CHR ''-'' # ?s)"
      unfolding BigNum_asBigInt_def e ..
    also have "\<dots> = Inr (- int (digits_val ?s))" using a by (rule of_string_neg)
    finally have "BigNum_asBigInt x = Inr (- int (digits_val ?s))" .
    moreover have "(10 dvd - int (digits_val ?s)) = (last (decimal x) = CHR ''0'')"
      using digits_val_last [OF a] d by (simp add: int_dvd_int_iff [symmetric] del: int_dvd_int_iff)
    ultimately show ?thesis by (rule that)
  qed
qed

lemma smod_zero_iff: "0 < d \<Longrightarrow> (n smod d = 0) = (d dvd (n::int))"
proof -
  assume d: "0 < d"
  have "(n smod d = 0) = (n = 0 \<or> \<bar>n\<bar> mod d = 0)"
    using d by (simp add: signed_modulo_int_def sgn_eq_0_iff)
  also have "\<dots> = (d dvd \<bar>n\<bar>)" by (auto simp: dvd_eq_mod_eq_0)
  also have "\<dots> = (d dvd n)" by simp
  finally show ?thesis .
qed

lemma floor_div_exact:
  "0 < d \<Longrightarrow> (of_int \<lfloor>(of_int n / of_int d :: rat)\<rfloor> = (of_int n / of_int d :: rat)) = (d dvd n)"
proof -
  assume d: "0 < d"
  have "(of_int (n div d) = (of_int n / of_int d :: rat)) = (of_int (n div d) * of_int d = (of_int n :: rat))"
    using d by (simp add: field_simps)
  also have "\<dots> = (n div d * d = n)"
    by (metis of_int_eq_iff of_int_mult)
  also have "\<dots> = (d dvd n)"
    by (metis dvd_div_mult_self dvd_triv_right)
  finally show ?thesis by (simp add: floor_divide_of_int_eq)
qed

lemma exact_at_iff:
  assumes "BigNum_asBigInt x = Inr n"
  shows "BigNum_exact_at x p =
           (BigNum_precision x \<le> p \<or> 10 ^ (BigNum_precision x - p) dvd n)"
proof (cases "BigNum_precision x \<le> p")
  case True
  define q where "q = BigNum_precision x"
  from True obtain e where e: "p = q + e" unfolding q_def by (metis le_Suc_ex)
  have "(of_int n / 10 ^ q * 10 ^ p :: rat) = of_int (n * 10 ^ e)"
    by (simp add: e power_add)
  then have "of_int \<lfloor>(of_int n / 10 ^ q * 10 ^ p :: rat)\<rfloor> = (of_int n / 10 ^ q * 10 ^ p :: rat)"
    by (simp only: floor_of_int)
  with True show ?thesis
    by (simp add: BigNum_exact_at_def BigNum_val_def assms q_def)
next
  case False
  define q where "q = BigNum_precision x"
  from False obtain e where e: "q = p + e" unfolding q_def by (metis le_Suc_ex not_le less_imp_le)
  have "(of_int n / 10 ^ q * 10 ^ p :: rat) = of_int n / of_int (10 ^ e)"
    by (simp add: e power_add)
  moreover have "(of_int \<lfloor>(of_int n / of_int (10 ^ e) :: rat)\<rfloor> = (of_int n / of_int (10 ^ e) :: rat))
                  = (10 ^ e dvd n)"
    by (rule floor_div_exact) simp
  ultimately show ?thesis using False
    by (simp add: BigNum_exact_at_def BigNum_val_def assms q_def [symmetric] e)
qed


lemma new_toString_point:
  "BigNum_new (BigInt_toString k @ ''.'') = Inr \<lparr>integer = BigInt_toString k, decimal = ''0''\<rparr>"
proof -
  have "BigNum_new (BigInt_toString k @ CHR ''.'' # [])
          = Inr \<lparr>integer = or_zero (dropWhile is0 (BigInt_toString k)),
                 decimal = or_zero (rev (dropWhile is0 (rev [])))\<rparr>"
    using toString_no_point [of k] by (intro new_point) simp_all
  then show ?thesis by (simp add: or_zero_dropWhile_toString) (simp add: or_zero_def)
qed

lemma round_switch_unnecessary:
  "round_switch UNNECESSARY rounded rest five
     = (if rest = 0 then Inr rounded else Inl RoundingNecessary)"
  by (auto simp: round_switch_def)

text \<open>
  Where the divider is an exact double, \<open>UNNECESSARY\<close> does what its name says. For a
  number of the shape the constructor builds and a precision \<open>p\<close> that is at most 22
  digits below the stored one, rounding with \<open>UNNECESSARY\<close> throws the
  rounding-necessary error if and only if the number is not exactly representable with
  \<open>p\<close> fractional digits; when it is, the call returns a number of the same value.
\<close>

lemma round_unnecessary_within_22:
  assumes wf: "BigNum_wf x" and bound: "BigNum_precision x \<le> p + 22"
  shows "(BigNum_round x \<lparr>precision = p, rounding = UNNECESSARY\<rparr> = Inl RoundingNecessary)
           = (\<not> BigNum_exact_at x p)
         \<and> (BigNum_exact_at x p \<longrightarrow>
              (\<exists>y. BigNum_round x \<lparr>precision = p, rounding = UNNECESSARY\<rparr> = Inr y
                   \<and> BigNum_val y = BigNum_val x))"
proof -
  let ?c = "\<lparr>precision = p, rounding = UNNECESSARY\<rparr>"
  from wf obtain n where n: "BigNum_asBigInt x = Inr n"
    and last: "(10 dvd n) = (last (decimal x) = CHR ''0'')"
    by (rule wf_asBigInt)
  note ex = exact_at_iff [OF n, of p]
  show ?thesis
  proof (cases "BigNum_precision x \<le> p")
    case True
    then have "BigNum_round x ?c = Inr x" by (simp add: BigNum_round_def)
    with True ex show ?thesis by simp
  next
    case False
    define diff where "diff = BigNum_precision x - p"
    have diff: "0 < diff" "diff \<le> 22" using False bound by (simp_all add: diff_def)
    have pw: "BigInt_pow10 (int diff) = Inr (10 ^ diff)"
      using diff by (simp add: BigInt_pow10_exact)
    have r: "BigNum_round x ?c =
               (if n smod 10 ^ diff = 0 then
                  BigNum_new (substring (BigInt_toString (n sdiv 10 ^ diff)) 0
                      (int (length (BigInt_toString (n sdiv 10 ^ diff))) - int p) @ ''.''
                    @ substring_from (BigInt_toString (n sdiv 10 ^ diff))
                      (int (length (BigInt_toString (n sdiv 10 ^ diff))) - int p))
                else Inl RoundingNecessary)"
      using False
      by (simp add: BigNum_round_def n pw bindE_def Let_def diff_def [symmetric]
          round_switch_unnecessary)
    have sm: "(n smod 10 ^ diff = 0) = (10 ^ diff dvd n)"
      by (rule smod_zero_iff) simp
    have ex': "BigNum_exact_at x p = (10 ^ diff dvd n)"
      using ex False by (simp add: diff_def)
    show ?thesis
    proof (cases "10 ^ diff dvd n")
      case nd: False
      with r sm ex' show ?thesis by simp
    next
      case d: True
      have "(10::int) dvd 10 ^ diff" using diff(1) by (simp add: dvd_power)
      then have "10 dvd n" using d by (rule dvd_trans)
      with last have "last (decimal x) = CHR ''0''" by simp
      with wf have dec: "decimal x = ''0''" by (simp add: BigNum_wf_def)
      then have "BigNum_precision x = 1" by (simp add: BigNum_precision_def)
      with False have p0: "p = 0" and d1: "diff = 1" by (simp_all add: diff_def)
      from \<open>10 dvd n\<close> obtain k where k: "n = 10 * k" by (rule dvdE)
      have "BigNum_round x ?c = BigNum_new (BigInt_toString k @ ''.'')"
        using r sm d by (simp add: d1 p0 k sdiv_10 substring_0 substring_from_drop)
      then have res: "BigNum_round x ?c = Inr \<lparr>integer = BigInt_toString k, decimal = ''0''\<rparr>"
        by (simp add: new_toString_point)
      have "BigNum_val \<lparr>integer = BigInt_toString k, decimal = ''0''\<rparr> = Some (of_int k)"
        by (simp add: BigNum_val_def BigNum_asBigInt_def of_string_toString_0 BigNum_precision_def)
      moreover have "BigNum_val x = Some (of_int k)"
        by (simp add: BigNum_val_def n k BigNum_precision_def dec)
      ultimately show ?thesis using res ex' d by simp
    qed
  qed
qed

text \<open>
  Beyond 22 dropped digits the divider \<open>BigInt(Math.pow(10, diff))\<close> is no longer the
  power of ten. The number created from \<open>"0.99999999999999991611392"\<close> stores 23
  fractional digits and its unscaled integer is the double nearest to \<open>10 ^ 23\<close>.
\<close>

lemma new_below_one:
  "BigNum_new ''0.99999999999999991611392''
     = Inr \<lparr>integer = ''0'', decimal = ''99999999999999991611392''\<rparr>"
  by (simp add: BigNum_eval_defs js_eval_defs)

lemma asBigInt_below_one:
  "BigNum_asBigInt \<lparr>integer = ''0'', decimal = ''99999999999999991611392''\<rparr>
     = Inr 99999999999999991611392"
  by (simp add: BigNum_asBigInt_def js_eval_defs)

lemma precision_below_one:
  "BigNum_precision \<lparr>integer = ''0'', decimal = ''99999999999999991611392''\<rparr> = 23"
  by (simp add: BigNum_precision_def)

lemma val_below_one:
  "BigNum_val \<lparr>integer = ''0'', decimal = ''99999999999999991611392''\<rparr>
     = Some (99999999999999991611392 / 10 ^ 23)"
  by (simp add: BigNum_val_def asBigInt_below_one precision_below_one)

lemma inexact_below_one:
  "\<not> BigNum_exact_at \<lparr>integer = ''0'', decimal = ''99999999999999991611392''\<rparr> 0"
proof -
  have "\<not> (10::int) ^ 23 dvd 99999999999999991611392"
  proof
    assume "(10::int) ^ 23 dvd 99999999999999991611392"
    then have "(10::int) ^ 23 \<le> 99999999999999991611392" by (rule zdvd_imp_le) simp
    then show False by simp
  qed
  then show ?thesis
    by (simp add: exact_at_iff [OF asBigInt_below_one] precision_below_one)
qed

lemma round_below_one:
  "BigNum_round \<lparr>integer = ''0'', decimal = ''99999999999999991611392''\<rparr>
       \<lparr>precision = 0, rounding = UNNECESSARY\<rparr>
     = Inr \<lparr>integer = ''1'', decimal = ''0''\<rparr>"
proof -
  have q: "(99999999999999991611392::int) sdiv 99999999999999991611392 = 1"
    "(99999999999999991611392::int) smod 99999999999999991611392 = 0"
    by (simp_all add: signed_divide_int_def signed_modulo_int_def)
  have t: "BigInt_toString 1 = ''1''"
    by (simp add: BigInt_toString_def nat_digits_Suc_0)
  have n: "BigNum_new ''1.'' = Inr \<lparr>integer = ''1'', decimal = ''0''\<rparr>"
    using new_toString_point [of 1] by (simp add: t)
  show ?thesis
    by (simp add: BigNum_round_def precision_below_one asBigInt_below_one BigInt_pow10_23
        bindE_def Let_def q round_switch_unnecessary t substring_def substring_from_def n)
qed

lemma val_one: "BigNum_val \<lparr>integer = ''1'', decimal = ''0''\<rparr> = Some 1"
  by (simp add: BigNum_val_def BigNum_asBigInt_def BigNum_precision_def js_eval_defs)

text \<open>
  C6, evaluated where it fails. The number created from \<open>"0.99999999999999991611392"\<close>
  is not an integer, so it is not exactly representable with 0 fractional digits, and
  rounding it to precision 0 with \<open>UNNECESSARY\<close> has to throw. The divider
  \<open>BigInt(Math.pow(10, 23))\<close> is \<open>99999999999999991611392\<close>, the unscaled integer
  itself: the remainder is 0, nothing is thrown and the call returns \<open>1.0\<close>, a number
  of another value.
\<close>

theorem round_unnecessary_inexact_divider:
  "BigNum_new ''0.99999999999999991611392''
     = Inr \<lparr>integer = ''0'', decimal = ''99999999999999991611392''\<rparr>
   \<and> \<not> BigNum_exact_at \<lparr>integer = ''0'', decimal = ''99999999999999991611392''\<rparr> 0
   \<and> BigNum_round \<lparr>integer = ''0'', decimal = ''99999999999999991611392''\<rparr>
         \<lparr>precision = 0, rounding = UNNECESSARY\<rparr>
       = Inr \<lparr>integer = ''1'', decimal = ''0''\<rparr>
   \<and> BigNum_val \<lparr>integer = ''1'', decimal = ''0''\<rparr>
       \<noteq> BigNum_val \<lparr>integer = ''0'', decimal = ''99999999999999991611392''\<rparr>"
proof -
  have "BigNum_val \<lparr>integer = ''1'', decimal = ''0''\<rparr>
       \<noteq> BigNum_val \<lparr>integer = ''0'', decimal = ''99999999999999991611392''\<rparr>"
    by (simp add: val_one val_below_one)
  with new_below_one inexact_below_one round_below_one show ?thesis by blast
qed

end
